theory Spec2Isabelle
  imports Main "HOL-Library.Word"
begin

section \<open>Values shared by the three modules\<close>

text \<open>
  A JavaScript string is a sequence of UTF-16 code units. Literals of the source are
  written with \<open>js\<close>, which maps an ASCII literal to its code units.
\<close>

type_synonym jschar = "16 word"
type_synonym jsstring = "jschar list"

definition js :: "string \<Rightarrow> jsstring" where
  "js s = map (\<lambda>c. of_nat (of_char c)) s"

text \<open>
  \<^verbatim>\<open>new Error(message)\<close>, and what a \<^verbatim>\<open>throw\<close> of the connection helper carries: an
  error built by this code, or the rejection reason of a promise of the database driver,
  which the code rethrows as it is.
\<close>

datatype error = Error string

datatype 'e thrown = Err error | Reason 'e

section \<open>lib/mongodb.ts: the cached connection\<close>

text \<open>
  \<^verbatim>\<open>interface MongooseGlobal { conn: Mongoose | null; promise: Promise<Mongoose> | null }\<close>
  A promise is an object with an identity: the model names it by its index in the list of
  the promises that \<^verbatim>\<open>mongoose.connect\<close> has returned so far. The length of that list is
  the number of connection attempts issued.
\<close>

datatype ('h, 'e) settled = Pending | Fulfilled 'h | Rejected 'e

record 'h MongooseGlobal =
  conn :: "'h option"
  promise :: "nat option"

text \<open>
  A call of the async function \<^verbatim>\<open>connectToDatabase\<close> runs synchronously up to its
  \<^verbatim>\<open>await\<close>, and is then suspended. A caller is either suspended on a promise, or its
  call has returned a handle, or it has thrown.
\<close>

datatype ('h, 'e) task = Awaiting nat | Returned 'h | Threw "'e thrown"

text \<open>
  The rest of a suspended call (lines 59 to 66) does not run when the awaited promise
  settles: it is a job of the microtask queue, put there at the settlement (or at the
  \<^verbatim>\<open>await\<close> itself, when the promise has settled before), and the jobs run later, one at
  a time, first in first out. Until the job runs, \<^verbatim>\<open>cached.promise\<close> still holds the
  settled promise. \<open>Reaction i\<close> is the rest of the call of caller \<open>i\<close>; \<open>Deferred env\<close> is
  a job queued by other code of the program that calls \<^verbatim>\<open>connectToDatabase\<close> when it
  runs, \<open>env\<close> being the value of \<^verbatim>\<open>process.env.MONGODB_URI\<close> then.
\<close>

datatype job = Reaction nat | Deferred "jsstring option"

record ('h, 'e) process =
  cached :: "'h MongooseGlobal"
  connects :: "(jsstring \<times> ('h, 'e) settled) list"
  callers :: "('h, 'e) task list"
  queue :: "job list"

definition finish :: "('h, 'e) task \<Rightarrow> ('h, 'e) process \<Rightarrow> ('h, 'e) process" where
  "finish t P = P\<lparr>callers := callers P @ [t]\<rparr>"

text \<open>
  \<^verbatim>\<open>await cached.promise\<close> (line 59): the caller is suspended; when the promise has
  settled already, the rest of the call is queued at once.
\<close>

definition await :: "nat \<Rightarrow> ('h, 'e) process \<Rightarrow> ('h, 'e) process" where
  "await p P =
     (if p < length (connects P) then
        (case snd (connects P ! p) of
           Pending \<Rightarrow> finish (Awaiting p) P
         | Fulfilled h \<Rightarrow>
             (finish (Awaiting p) P)\<lparr>queue := queue P @ [Reaction (length (callers P))]\<rparr>
         | Rejected e \<Rightarrow>
             (finish (Awaiting p) P)\<lparr>queue := queue P @ [Reaction (length (callers P))]\<rparr>)
      else finish (Awaiting p) P)"

text \<open>
  Lines 35 to 59 of \<^verbatim>\<open>connectToDatabase\<close>, up to the \<^verbatim>\<open>await\<close>. The argument is
  the value of \<^verbatim>\<open>process.env.MONGODB_URI\<close> at the call (\<open>None\<close> is \<^verbatim>\<open>undefined\<close>);
  \<^verbatim>\<open>!uri\<close> holds for \<^verbatim>\<open>undefined\<close> and for the empty string.
\<close>

definition connectToDatabase ::
  "jsstring option \<Rightarrow> ('h, 'e) process \<Rightarrow> ('h, 'e) process" where
  "connectToDatabase env P =
     (case env of
        None \<Rightarrow> finish (Threw (Err (Error
        ''Please define the MONGODB_URI environment variable in your environment.''))) P
      | Some uri \<Rightarrow>
          if uri = [] then finish (Threw (Err (Error
        ''Please define the MONGODB_URI environment variable in your environment.''))) P
          else
            (case conn (cached P) of
               Some h \<Rightarrow> finish (Returned h) P
             | None \<Rightarrow>
                 (case promise (cached P) of
                    Some p \<Rightarrow> await p P
                  | None \<Rightarrow>
                      await (length (connects P))
                        (P\<lparr>cached := (cached P)\<lparr>promise := Some (length (connects P))\<rparr>,
                           connects := connects P @ [(uri, Pending)]\<rparr>))))"

text \<open>
  Lines 58 to 66: what a suspended call does when it goes on after the promise it awaits
  has settled. On fulfilment it stores the handle in \<^verbatim>\<open>cached.conn\<close> and returns
  \<^verbatim>\<open>cached.conn\<close>; on rejection it sets \<^verbatim>\<open>cached.promise\<close> to \<^verbatim>\<open>null\<close>, whichever
  promise is cached by then, and rethrows the reason.
\<close>

fun after_await ::
  "('h, 'e) settled \<Rightarrow> nat \<Rightarrow> 'h MongooseGlobal \<Rightarrow> 'h MongooseGlobal \<times> ('h, 'e) task" where
  "after_await (Fulfilled h) p c = (c\<lparr>conn := Some h\<rparr>, Returned h)"
| "after_await (Rejected e) p c = (c\<lparr>promise := None\<rparr>, Threw (Reason e))"
| "after_await Pending p c = (c, Awaiting p)"

text \<open>The job \<open>Reaction i\<close>: caller \<open>i\<close> goes on, in the state of the cache at that time.\<close>

definition resume :: "nat \<Rightarrow> ('h, 'e) process \<Rightarrow> ('h, 'e) process" where
  "resume i P =
     (if i < length (callers P) then
        (case callers P ! i of
           Awaiting p \<Rightarrow>
             if p < length (connects P) then
               (case after_await (snd (connects P ! p)) p (cached P) of
                  (c, t) \<Rightarrow> P\<lparr>cached := c, callers := (callers P)[i := t]\<rparr>)
             else P
         | Returned h \<Rightarrow> P
         | Threw e \<Rightarrow> P)
      else P)"

text \<open>A promise that has been issued and has not settled yet.\<close>

definition pending :: "('h, 'e) process \<Rightarrow> nat \<Rightarrow> bool" where
  "pending P p = (p < length (connects P) \<and> snd (connects P ! p) = Pending)"

text \<open>
  When a promise settles, the reactions registered on it are queued, in the order in which
  the callers started to await it. None of them runs yet.
\<close>

definition awaits :: "nat \<Rightarrow> ('h, 'e) task \<Rightarrow> bool" where
  "awaits p t = (case t of Awaiting q \<Rightarrow> q = p | Returned h \<Rightarrow> False | Threw e \<Rightarrow> False)"

definition reactions :: "nat \<Rightarrow> ('h, 'e) task list \<Rightarrow> job list" where
  "reactions p ts = map Reaction (filter (\<lambda>i. awaits p (ts ! i)) [0..<length ts])"

definition settle ::
  "nat \<Rightarrow> ('h, 'e) settled \<Rightarrow> ('h, 'e) process \<Rightarrow> ('h, 'e) process" where
  "settle p out P =
     (case out of
        Pending \<Rightarrow> P
      | Fulfilled h \<Rightarrow>
          if pending P p then
            P\<lparr>connects := (connects P)[p := (fst (connects P ! p), out)],
              queue := queue P @ reactions p (callers P)\<rparr>
          else P
      | Rejected e \<Rightarrow>
          if pending P p then
            P\<lparr>connects := (connects P)[p := (fst (connects P ! p), out)],
              queue := queue P @ reactions p (callers P)\<rparr>
          else P)"

text \<open>One job of the microtask queue runs: the oldest.\<close>

definition tick :: "('h, 'e) process \<Rightarrow> ('h, 'e) process" where
  "tick P =
     (case queue P of
        [] \<Rightarrow> P
      | j # rest \<Rightarrow>
          (case j of
             Reaction i \<Rightarrow> resume i (P\<lparr>queue := rest\<rparr>)
           | Deferred env \<Rightarrow> connectToDatabase env (P\<lparr>queue := rest\<rparr>)))"

text \<open>
  The jobs run until the queue is empty. A job can queue another one (a deferred call that
  awaits a settled promise queues its own reaction), so the number of jobs is not the
  measure: a deferred call weighs two, a reaction one.
\<close>

fun weight :: "job \<Rightarrow> nat" where
  "weight (Reaction i) = 1"
| "weight (Deferred env) = 2"

function drain :: "('h, 'e) process \<Rightarrow> ('h, 'e) process" where
  "drain P = (if queue P = [] then P else drain (tick P))"
  by pat_completeness auto
termination
proof (relation "measure (\<lambda>P. sum_list (map weight (queue P)))")
  show "wf (measure (\<lambda>P :: ('h, 'e) process. sum_list (map weight (queue P))))" by simp
next
  fix P :: "('h, 'e) process"
  assume ne: "queue P \<noteq> []"
  then obtain j rest where q: "queue P = j # rest" by (cases "queue P") auto
  have "sum_list (map weight (queue (tick P))) < sum_list (map weight (queue P))"
  proof (cases j)
    case (Reaction i)
    have "queue (resume i (P\<lparr>queue := rest\<rparr>)) = rest"
      by (simp add: resume_def split: task.split prod.split)
    then show ?thesis using q Reaction by (simp add: tick_def)
  next
    case (Deferred env)
    have "sum_list (map weight (queue (connectToDatabase env (P\<lparr>queue := rest\<rparr>))))
            \<le> sum_list (map weight rest) + 1"
      by (simp add: connectToDatabase_def await_def finish_def
               split: option.split settled.split)
    then show ?thesis using q Deferred by (simp add: tick_def)
  qed
  then show "(tick P, P) \<in> measure (\<lambda>P. sum_list (map weight (queue P)))" by simp
qed

text \<open>
  What happens to the process: a caller calls, running code queues a job that will call,
  a connection attempt settles, the oldest job runs.
\<close>

datatype ('h, 'e) event =
  Call "jsstring option" | Defer "jsstring option" | Settle nat "('h, 'e) settled" | Tick

fun step :: "('h, 'e) event \<Rightarrow> ('h, 'e) process \<Rightarrow> ('h, 'e) process" where
  "step (Call env) P = connectToDatabase env P"
| "step (Defer env) P = P\<lparr>queue := queue P @ [Deferred env]\<rparr>"
| "step (Settle p out) P = settle p out P"
| "step Tick P = tick P"

fun run :: "('h, 'e) event list \<Rightarrow> ('h, 'e) process \<Rightarrow> ('h, 'e) process" where
  "run [] P = P"
| "run (e # es) P = run es (step e P)"

text \<open>
  The module's initial state: \<^verbatim>\<open>{ conn: null, promise: null }\<close>, nothing issued, no job
  queued.
\<close>

definition initial :: "('h, 'e) process" where
  "initial =
     \<lparr>cached = \<lparr>conn = None, promise = None\<rparr>, connects = [], callers = [], queue = []\<rparr>"

text \<open>\<^verbatim>\<open>!uri\<close>: the configuration is absent (\<^verbatim>\<open>undefined\<close>) or the empty string.\<close>

definition unconfigured :: "jsstring option \<Rightarrow> bool" where
  "unconfigured env = (env = None \<or> env = Some [])"

text \<open>
  The cached promise, when there is one, has not settled: the state of the cache between
  two attempts and while one is in flight.
\<close>

definition in_flight_or_idle :: "('h, 'e) process \<Rightarrow> bool" where
  "in_flight_or_idle P =
     (case promise (cached P) of None \<Rightarrow> True | Some p \<Rightarrow> pending P p)"

text \<open>
  What every state that the process reaches has: the cached promise has been issued; while
  it is pending some caller awaits it (the one that issued it at least); once it has
  settled, the rest of the call of a caller that awaits it is in the queue, or else it was
  fulfilled and the handle is cached.
\<close>

definition reaction_queued :: "nat \<Rightarrow> ('h, 'e) process \<Rightarrow> bool" where
  "reaction_queued p P =
     list_ex (\<lambda>j. case j of
                Reaction i \<Rightarrow> i < length (callers P) \<and> awaits p (callers P ! i)
              | Deferred env \<Rightarrow> False) (queue P)"

definition coherent :: "('h, 'e) process \<Rightarrow> bool" where
  "coherent P =
     (case promise (cached P) of
        None \<Rightarrow> True
      | Some p \<Rightarrow>
          p < length (connects P) \<and>
          (case snd (connects P ! p) of
             Pending \<Rightarrow> list_ex (awaits p) (callers P)
           | Fulfilled h \<Rightarrow> conn (cached P) \<noteq> None \<or> reaction_queued p P
           | Rejected e \<Rightarrow> reaction_queued p P))"

text \<open>A process in which one call has connected: the handle \<open>7\<close> is cached.\<close>

definition warm :: "(nat, 'e) process" where
  "warm = run [Call (Some (js ''mongodb://db'')), Settle 0 (Fulfilled 7), Tick] initial"

text \<open>
  An interleaving of four calls \<open>c0\<close> to \<open>c3\<close>, all with the URI configured. \<open>c0\<close> calls and
  its attempt is rejected. Before the catch block of \<open>c0\<close> runs, the running code queues a
  job that will call (\<open>c2\<close>), and calls itself (\<open>c1\<close>): \<open>c1\<close> finds the rejected promise
  cached and awaits it, so that its catch block is queued behind \<open>c2\<close>. Then the three
  jobs run: the catch block of \<open>c0\<close>, the call \<open>c2\<close>, the catch block of \<open>c1\<close>. At last
  \<open>c3\<close> calls.
\<close>

definition retry_race :: "(nat, string) event list" where
  "retry_race =
     [Call (Some (js ''mongodb://db'')), Settle 0 (Rejected ''ECONNREFUSED''),
      Defer (Some (js ''mongodb://db'')), Call (Some (js ''mongodb://db'')),
      Tick, Tick, Tick,
      Call (Some (js ''mongodb://db''))]"

section \<open>Strings and regular expressions of the runtime\<close>

text \<open>
  White space and line terminators of ECMAScript: the code units that
  \<^verbatim>\<open>String.prototype.trim\<close> strips and that \<^verbatim>\<open>\s\<close> matches.
\<close>

definition isWhiteSpace :: "jschar \<Rightarrow> bool" where
  "isWhiteSpace c =
     (c = 0x0009 \<or> c = 0x000A \<or> c = 0x000B \<or> c = 0x000C \<or> c = 0x000D \<or> c = 0x0020 \<or>
      c = 0x00A0 \<or> c = 0x1680 \<or> (0x2000 \<le> c \<and> c \<le> 0x200A) \<or> c = 0x2028 \<or>
      c = 0x2029 \<or> c = 0x202F \<or> c = 0x205F \<or> c = 0x3000 \<or> c = 0xFEFF)"

definition trim :: "jsstring \<Rightarrow> jsstring" where
  "trim s = rev (dropWhile isWhiteSpace (rev (dropWhile isWhiteSpace s)))"

text \<open>
  \<^verbatim>\<open>String.prototype.toLowerCase\<close>. On a string of ASCII code units it maps \<^verbatim>\<open>A-Z\<close> to
  \<^verbatim>\<open>a-z\<close> and leaves the rest; on any other string it applies the Unicode case mapping
  of the runtime, which is not part of this repository and is the parameter \<open>uni\<close>.
\<close>

definition lowerASCII :: "jschar \<Rightarrow> jschar" where
  "lowerASCII c = (if 0x41 \<le> c \<and> c \<le> 0x5A then c + 0x20 else c)"

definition toLowerCase :: "(jsstring \<Rightarrow> jsstring) \<Rightarrow> jsstring \<Rightarrow> jsstring" where
  "toLowerCase uni s = (if list_all (\<lambda>c. c < 0x80) s then map lowerASCII s else uni s)"

text \<open>
  Regular expressions, as far as the three literals of the source need them. A class is a
  list of items, negated (\<^verbatim>\<open>[^...]\<close>) when the flag is set; \<^verbatim>\<open>\d\<close> outside a class is
  the class of the one item \<open>Digit\<close>. \<open>Plus\<close> and \<open>Opt\<close> are the greedy \<^verbatim>\<open>+\<close> and
  \<^verbatim>\<open>?\<close>; \<open>Group n\<close> is the \<open>n\<close>-th capturing group, and a non-capturing group
  \<^verbatim>\<open>(?:...)\<close> is its body.
\<close>

datatype item = Chr jschar | Rng jschar jschar | Space | Digit

fun in_item :: "item \<Rightarrow> jschar \<Rightarrow> bool" where
  "in_item (Chr a) c = (c = a)"
| "in_item (Rng a b) c = (a \<le> c \<and> c \<le> b)"
| "in_item Space c = isWhiteSpace c"
| "in_item Digit c = (0x30 \<le> c \<and> c \<le> 0x39)"

definition in_class :: "bool \<Rightarrow> item list \<Rightarrow> jschar \<Rightarrow> bool" where
  "in_class neg items c = (list_ex (\<lambda>i. in_item i c) items \<noteq> neg)"

datatype regex =
    Lit jschar
  | Class bool "item list"
  | Bol
  | Eol
  | Seq regex regex
  | Alt regex regex
  | Star regex
  | Opt regex
  | Group nat regex

definition Plus :: "regex \<Rightarrow> regex" where
  "Plus a = Seq a (Star a)"

text \<open>
  The backtracking matcher of ECMAScript, as the list of its successes in the order in
  which backtracking finds them: the head of the list is the match that the engine
  reports. A state is the input already passed (reversed), the input still ahead, and the
  captures. An iteration of a greedy \<^verbatim>\<open>*\<close> or \<^verbatim>\<open>?\<close> that consumes nothing is rejected, as
  the engine does.
\<close>

type_synonym mstate = "jsstring \<times> jsstring \<times> (nat \<rightharpoonup> jsstring)"

definition ahead :: "mstate \<Rightarrow> nat" where
  "ahead x = length (fst (snd x))"

definition capture :: "nat \<Rightarrow> mstate \<Rightarrow> mstate \<Rightarrow> mstate" where
  "capture n x y =
     (fst y, fst (snd y),
      (snd (snd y))(n \<mapsto> rev (take (length (fst y) - length (fst x)) (fst y))))"

function m :: "regex \<Rightarrow> mstate \<Rightarrow> mstate list" where
  "m (Lit a) x =
     (case fst (snd x) of
        [] \<Rightarrow> []
      | c # cs \<Rightarrow> if c = a then [(c # fst x, cs, snd (snd x))] else [])"
| "m (Class neg items) x =
     (case fst (snd x) of
        [] \<Rightarrow> []
      | c # cs \<Rightarrow> if in_class neg items c then [(c # fst x, cs, snd (snd x))] else [])"
| "m Bol x = (if fst x = [] then [x] else [])"
| "m Eol x = (if fst (snd x) = [] then [x] else [])"
| "m (Seq a b) x = concat (map (m b) (m a x))"
| "m (Alt a b) x = m a x @ m b x"
| "m (Star a) x =
     concat (map (\<lambda>y. if ahead y < ahead x then m (Star a) y else []) (m a x)) @ [x]"
| "m (Opt a) x = filter (\<lambda>y. ahead y < ahead x) (m a x) @ [x]"
| "m (Group n a) x = map (capture n x) (m a x)"
  by pat_completeness auto
termination
  by (relation "inv_image (less_than <*lex*> less_than) (\<lambda>(r, x). (size r, ahead x))") auto

lemmas m_Star = m.simps(7)

declare m.simps(7) [simp del]

text \<open>
  \<^verbatim>\<open>RegExp.prototype.exec\<close> without the global flag: the first position, from the left,
  at which the matcher succeeds, with the first success there. The result is the input
  before the match (reversed) and the state of the matcher after the match, which holds
  the captures.
\<close>

fun exec_from :: "regex \<Rightarrow> jsstring \<Rightarrow> jsstring \<Rightarrow> (jsstring \<times> mstate) option" where
  "exec_from r pre rest =
     (case m r (pre, rest, Map.empty) of
        y # _ \<Rightarrow> Some (pre, y)
      | [] \<Rightarrow> (case rest of [] \<Rightarrow> None | c # cs \<Rightarrow> exec_from r (c # pre) cs))"

declare exec_from.simps [simp del]

definition exec :: "regex \<Rightarrow> jsstring \<Rightarrow> (jsstring \<times> mstate) option" where
  "exec r s = exec_from r [] s"

definition test :: "regex \<Rightarrow> jsstring \<Rightarrow> bool" where
  "test r s = (exec r s \<noteq> None)"

text \<open>
  \<^verbatim>\<open>String.prototype.replace\<close> with a global regular expression and a replacement text
  without \<^verbatim>\<open>$\<close>: every match, found from the left after the end of the one before, is
  replaced; after an empty match the search moves on by one code unit.
\<close>

function replace_from :: "regex \<Rightarrow> jsstring \<Rightarrow> jsstring \<Rightarrow> jsstring \<Rightarrow> jsstring" where
  "replace_from r new pre rest =
     (case m r (pre, rest, Map.empty) of
        y # _ \<Rightarrow>
          if ahead y < length rest then new @ replace_from r new (fst y) (fst (snd y))
          else new @ (case rest of [] \<Rightarrow> [] | c # cs \<Rightarrow> c # replace_from r new (c # pre) cs)
      | [] \<Rightarrow> (case rest of [] \<Rightarrow> [] | c # cs \<Rightarrow> c # replace_from r new (c # pre) cs))"
  by pat_completeness auto
termination
  by (relation "measure (\<lambda>(r, new, pre, rest). length rest)") (auto simp: ahead_def)

declare replace_from.simps [simp del]

definition replace :: "regex \<Rightarrow> jsstring \<Rightarrow> jsstring \<Rightarrow> jsstring" where
  "replace r new s = replace_from r new [] s"

text \<open>
  A pattern that matches exactly one code unit, the ones that satisfy \<open>P\<close>: a pattern
  character or a class.
\<close>

definition single :: "regex \<Rightarrow> (jschar \<Rightarrow> bool) \<Rightarrow> bool" where
  "single a P = (\<forall>pre rest c. m a (pre, rest, c) =
      (case rest of [] \<Rightarrow> [] | ch # cs \<Rightarrow> if P ch then [(ch # pre, cs, c)] else []))"

text \<open>Decimal digits and their values.\<close>

definition digit :: "jschar \<Rightarrow> bool" where
  "digit c = (0x30 \<le> c \<and> c \<le> 0x39)"

definition digit_value :: "jschar \<Rightarrow> nat" where
  "digit_value c = unat c - 48"

definition two_digits :: "nat \<Rightarrow> jschar \<Rightarrow> jschar \<Rightarrow> bool" where
  "two_digits hi a b = (digit a \<and> digit b \<and> 10 * digit_value a + digit_value b \<le> hi)"

section \<open>The Date object of the runtime\<close>

text \<open>
  A time value is a number of milliseconds since the epoch, in UTC; \<open>None\<close> stands for
  \<^verbatim>\<open>NaN\<close>, the time value of an invalid date. The functions below are the ones of the
  ECMAScript specification, with their names.
\<close>

definition msPerDay :: int where
  "msPerDay = 86400000"

definition Day :: "int \<Rightarrow> int" where
  "Day t = t div msPerDay"

definition DaysInYear :: "int \<Rightarrow> int" where
  "DaysInYear y =
     (if y mod 4 \<noteq> 0 then 365 else if y mod 100 \<noteq> 0 then 366
      else if y mod 400 \<noteq> 0 then 365 else 366)"

definition DayFromYear :: "int \<Rightarrow> int" where
  "DayFromYear y =
     365 * (y - 1970) + (y - 1969) div 4 - (y - 1901) div 100 + (y - 1601) div 400"

text \<open>
  \<open>YearFromTime t\<close> is the largest year \<open>y\<close> with \<open>DayFromYear y \<le> Day t\<close>. It is found
  by going up, year by year, from a year that is not after the day.
\<close>

function year_up :: "int \<Rightarrow> int \<Rightarrow> int" where
  "year_up d y = (if DayFromYear (y + 1) \<le> d then year_up d (y + 1) else y)"
  by pat_completeness auto
termination
proof (relation "measure (\<lambda>(d, y). nat (d + 1 - DayFromYear (y + 1)))")
  show "wf (measure (\<lambda>(d, y). nat (d + 1 - DayFromYear (y + 1))))" by simp
next
  fix d y :: int
  assume "DayFromYear (y + 1) \<le> d"
  moreover have "DayFromYear (y + 1) < DayFromYear (y + 1 + 1)"
  proof -
    define a1 b1 c1 where "a1 = (y - 1968) div 4" and "b1 = (y - 1900) div 100"
      and "c1 = (y - 1600) div 400"
    define a2 b2 c2 where "a2 = (y - 1967) div 4" and "b2 = (y - 1899) div 100"
      and "c2 = (y - 1599) div 400"
    have "b2 \<le> (y - 1900 + 100) div 100"
      unfolding b2_def by (rule zdiv_mono1) simp_all
    also have "(y - 1900 + 100) div 100 = b1 + 1"
      unfolding b1_def by simp
    finally have "b2 \<le> b1 + 1" .
    moreover have "a1 \<le> a2" "c1 \<le> c2"
      unfolding a1_def a2_def c1_def c2_def by (rule zdiv_mono1; simp)+
    moreover have "DayFromYear (y + 1) = 365 * (y - 1969) + a1 - b1 + c1"
      "DayFromYear (y + 1 + 1) = 365 * (y - 1968) + a2 - b2 + c2"
      unfolding a1_def b1_def c1_def a2_def b2_def c2_def DayFromYear_def by simp_all
    ultimately show ?thesis by simp
  qed
  ultimately show "((d, y + 1), (d, y)) \<in> measure (\<lambda>(d, y). nat (d + 1 - DayFromYear (y + 1)))"
    by simp
qed

declare year_up.simps [simp del]

definition YearFromDay :: "int \<Rightarrow> int" where
  "YearFromDay d = year_up d (1970 + (if 0 \<le> d then d div 366 else d div 365))"

definition YearFromTime :: "int \<Rightarrow> int" where
  "YearFromTime t = YearFromDay (Day t)"

definition InLeapYear :: "int \<Rightarrow> int" where
  "InLeapYear t = (if DaysInYear (YearFromTime t) = 366 then 1 else 0)"

definition DayWithinYear :: "int \<Rightarrow> int" where
  "DayWithinYear t = Day t - DayFromYear (YearFromTime t)"

definition MonthFromTime :: "int \<Rightarrow> int" where
  "MonthFromTime t =
     (let w = DayWithinYear t; l = InLeapYear t in
      if w < 31 then 0
      else if w < 59 + l then 1
      else if w < 90 + l then 2
      else if w < 120 + l then 3
      else if w < 151 + l then 4
      else if w < 181 + l then 5
      else if w < 212 + l then 6
      else if w < 243 + l then 7
      else if w < 273 + l then 8
      else if w < 304 + l then 9
      else if w < 334 + l then 10
      else 11)"

definition DateFromTime :: "int \<Rightarrow> int" where
  "DateFromTime t =
     (let w = DayWithinYear t; l = InLeapYear t; mo = MonthFromTime t in
      if mo = 0 then w + 1
      else if mo = 1 then w - 30
      else if mo = 2 then w - 58 - l
      else if mo = 3 then w - 89 - l
      else if mo = 4 then w - 119 - l
      else if mo = 5 then w - 150 - l
      else if mo = 6 then w - 180 - l
      else if mo = 7 then w - 211 - l
      else if mo = 8 then w - 242 - l
      else if mo = 9 then w - 272 - l
      else if mo = 10 then w - 303 - l
      else w - 333 - l)"

definition HourFromTime :: "int \<Rightarrow> int" where
  "HourFromTime t = (t div 3600000) mod 24"

definition MinFromTime :: "int \<Rightarrow> int" where
  "MinFromTime t = (t div 60000) mod 60"

definition SecFromTime :: "int \<Rightarrow> int" where
  "SecFromTime t = (t div 1000) mod 60"

definition msFromTime :: "int \<Rightarrow> int" where
  "msFromTime t = t mod 1000"

text \<open>
  \<open>MakeDay\<close> for a month number in 0 to 11: the day number of the given day of the given
  month of the given year.
\<close>

definition days_before_month :: "int \<Rightarrow> int \<Rightarrow> int" where
  "days_before_month y mo =
     (let l = (if DaysInYear y = 366 then 1 else 0) in
      if mo = 0 then 0
      else if mo = 1 then 31
      else if mo = 2 then 59 + l
      else if mo = 3 then 90 + l
      else if mo = 4 then 120 + l
      else if mo = 5 then 151 + l
      else if mo = 6 then 181 + l
      else if mo = 7 then 212 + l
      else if mo = 8 then 243 + l
      else if mo = 9 then 273 + l
      else if mo = 10 then 304 + l
      else 334 + l)"

definition MakeDay :: "int \<Rightarrow> int \<Rightarrow> int \<Rightarrow> int" where
  "MakeDay y mo dt = DayFromYear y + days_before_month y mo + dt - 1"

definition DaysInMonth :: "int \<Rightarrow> int \<Rightarrow> int" where
  "DaysInMonth y mo =
     (if mo = 1 then (if DaysInYear y = 366 then 29 else 28)
      else if mo = 3 \<or> mo = 5 \<or> mo = 8 \<or> mo = 10 then 30 else 31)"

definition TimeClip :: "int option \<Rightarrow> int option" where
  "TimeClip v =
     (case v of None \<Rightarrow> None
      | Some t \<Rightarrow> if \<bar>t\<bar> \<le> 8640000000000000 then Some t else None)"

text \<open>
  Decimal numbers in text: \<open>pad w n\<close> is \<open>n\<close> in \<open>w\<close> digits, with leading zeros, and
  \<open>number\<close> reads digits back.
\<close>

definition digit_of :: "nat \<Rightarrow> jschar" where
  "digit_of k = of_nat (48 + k)"

fun pad :: "nat \<Rightarrow> nat \<Rightarrow> jsstring" where
  "pad 0 n = []"
| "pad (Suc w) n = pad w (n div 10) @ [digit_of (n mod 10)]"

definition number :: "jsstring \<Rightarrow> nat" where
  "number s = foldl (\<lambda>n c. 10 * n + digit_value c) 0 s"

text \<open>
  \<^verbatim>\<open>Date.prototype.toISOString\<close> of a valid date: \<^verbatim>\<open>YYYY-MM-DDTHH:mm:ss.sssZ\<close> in UTC,
  where a year outside 0 to 9999 is written with a sign and six digits.
\<close>

definition year_text :: "int \<Rightarrow> jsstring" where
  "year_text y =
     (if 0 \<le> y \<and> y \<le> 9999 then pad 4 (nat y)
      else (if y < 0 then [0x2D] else [0x2B]) @ pad 6 (nat \<bar>y\<bar>))"

definition date_text :: "int \<Rightarrow> int \<Rightarrow> int \<Rightarrow> jsstring" where
  "date_text y mo dt = year_text y @ [0x2D] @ pad 2 (nat mo) @ [0x2D] @ pad 2 (nat dt)"

definition toISOString :: "int \<Rightarrow> jsstring" where
  "toISOString t =
     date_text (YearFromTime t) (MonthFromTime t + 1) (DateFromTime t) @ [0x54]
       @ pad 2 (nat (HourFromTime t)) @ [0x3A] @ pad 2 (nat (MinFromTime t)) @ [0x3A]
       @ pad 2 (nat (SecFromTime t)) @ [0x2E] @ pad 3 (nat (msFromTime t)) @ [0x5A]"

text \<open>\<^verbatim>\<open>s.split(sep)[0]\<close> for a separator of one code unit: the text before its first occurrence.\<close>

definition split_first :: "jschar \<Rightarrow> jsstring \<Rightarrow> jsstring" where
  "split_first sep s = takeWhile (\<lambda>c. c \<noteq> sep) s"

text \<open>
  \<^verbatim>\<open>Date.parse\<close>, which \<^verbatim>\<open>new Date(string)\<close> uses. The specification fixes the result on
  the date-time string format: a date \<^verbatim>\<open>YYYY\<close>, \<^verbatim>\<open>YYYY-MM\<close> or \<^verbatim>\<open>YYYY-MM-DD\<close> (the
  year also as a sign and six digits, but not \<^verbatim>\<open>-000000\<close>), alone, which is then UTC, or
  followed by \<^verbatim>\<open>T\<close>, a time \<^verbatim>\<open>HH:mm\<close>, \<^verbatim>\<open>HH:mm:ss\<close> or \<^verbatim>\<open>HH:mm:ss.sss\<close> and a zone
  \<^verbatim>\<open>Z\<close> or \<^verbatim>\<open>+HH:mm\<close> or \<^verbatim>\<open>-HH:mm\<close>. \<open>parse_date_time\<close> reads these strings, when
  the month, the day of the month, the hour (0 to 23), the minute and the second exist.
  On every other string (other formats, a date-time without a zone, which is local time,
  a day that the month does not have) the result is the one of the runtime, which is not
  part of this repository: the parameter \<open>impl\<close>.
\<close>

fun parse_year :: "jsstring \<Rightarrow> (int \<times> jsstring) option" where
  "parse_year (s # a # b # c # d # e # f # rest) =
     (if s = 0x2B \<or> s = 0x2D then
        (if list_all digit [a, b, c, d, e, f] then
           (if s = 0x2D then
              (if number [a, b, c, d, e, f] = 0 then None
               else Some (- int (number [a, b, c, d, e, f]), rest))
            else Some (int (number [a, b, c, d, e, f]), rest))
         else None)
      else if list_all digit [s, a, b, c] then Some (int (number [s, a, b, c]), d # e # f # rest)
      else None)"
| "parse_year (a # b # c # d # rest) =
     (if list_all digit [a, b, c, d] then Some (int (number [a, b, c, d]), rest) else None)"
| "parse_year _ = None"

fun parse_month_day :: "jsstring \<Rightarrow> (int \<times> int) option" where
  "parse_month_day [] = Some (1, 1)"
| "parse_month_day [h, m1, m2] =
     (if h = 0x2D \<and> digit m1 \<and> digit m2 then Some (int (number [m1, m2]), 1) else None)"
| "parse_month_day [h, m1, m2, i, d1, d2] =
     (if h = 0x2D \<and> digit m1 \<and> digit m2 \<and> i = 0x2D \<and> digit d1 \<and> digit d2
      then Some (int (number [m1, m2]), int (number [d1, d2])) else None)"
| "parse_month_day _ = None"

text \<open>The time of day in milliseconds, and the text that follows it.\<close>

fun parse_time :: "jsstring \<Rightarrow> (int \<times> jsstring) option" where
  "parse_time (h1 # h2 # c # m1 # m2 # rest) =
     (if two_digits 23 h1 h2 \<and> c = 0x3A \<and> two_digits 59 m1 m2 then
        (let hm = 3600000 * int (number [h1, h2]) + 60000 * int (number [m1, m2]) in
         case rest of
           c2 # s1 # s2 # rest2 \<Rightarrow>
             if c2 = 0x3A then
               (if two_digits 59 s1 s2 then
                  (let hms = hm + 1000 * int (number [s1, s2]) in
                   case rest2 of
                     p # f1 # f2 # f3 # rest3 \<Rightarrow>
                       if p = 0x2E then
                         (if digit f1 \<and> digit f2 \<and> digit f3
                          then Some (hms + int (number [f1, f2, f3]), rest3) else None)
                       else Some (hms, rest2)
                   | _ \<Rightarrow> Some (hms, rest2))
                else None)
             else Some (hm, rest)
         | _ \<Rightarrow> Some (hm, rest))
      else None)"
| "parse_time _ = None"

text \<open>The zone offset in minutes.\<close>

fun parse_zone :: "jsstring \<Rightarrow> int option" where
  "parse_zone [z] = (if z = 0x5A then Some 0 else None)"
| "parse_zone [s, h1, h2, c, m1, m2] =
     (if (s = 0x2B \<or> s = 0x2D) \<and> two_digits 23 h1 h2 \<and> c = 0x3A \<and> two_digits 59 m1 m2 then
        Some ((if s = 0x2D then - 1 else 1)
                * (60 * int (number [h1, h2]) + int (number [m1, m2])))
      else None)"
| "parse_zone _ = None"

definition parse_date_time :: "jsstring \<Rightarrow> int option" where
  "parse_date_time s =
     (case parse_year (takeWhile (\<lambda>c. c \<noteq> 0x54) s) of
        None \<Rightarrow> None
      | Some (y, r) \<Rightarrow>
          (case parse_month_day r of
             None \<Rightarrow> None
           | Some (mo, dt) \<Rightarrow>
               if 1 \<le> mo \<and> mo \<le> 12 \<and> 1 \<le> dt \<and> dt \<le> DaysInMonth y (mo - 1) then
                 (case dropWhile (\<lambda>c. c \<noteq> 0x54) s of
                    [] \<Rightarrow> Some (msPerDay * MakeDay y (mo - 1) dt)
                  | T # tm \<Rightarrow>
                      (case parse_time tm of
                         None \<Rightarrow> None
                       | Some (ms, z) \<Rightarrow>
                           (case parse_zone z of
                              None \<Rightarrow> None
                            | Some off \<Rightarrow>
                                Some (msPerDay * MakeDay y (mo - 1) dt + ms - 60000 * off))))
               else None))"

definition Date_parse :: "(jsstring \<Rightarrow> int option) \<Rightarrow> jsstring \<Rightarrow> int option" where
  "Date_parse impl s =
     TimeClip (case parse_date_time s of Some t \<Rightarrow> Some t | None \<Rightarrow> impl s)"

text \<open>A runtime that accepts nothing outside the date-time string format.\<close>

definition strict :: "jsstring \<Rightarrow> int option" where
  "strict s = None"

text \<open>
  A runtime that, as V8 does, reads a date \<^verbatim>\<open>YYYY-MM-DD\<close> whose day is from 01 to 31 in
  every month, and counts the days that the month does not have into the next month.
\<close>

definition lenient :: "jsstring \<Rightarrow> int option" where
  "lenient s =
     (case parse_year s of
        None \<Rightarrow> None
      | Some (y, r) \<Rightarrow>
          (case parse_month_day r of
             None \<Rightarrow> None
           | Some (mo, dt) \<Rightarrow>
               if 1 \<le> mo \<and> mo \<le> 12 \<and> 1 \<le> dt \<and> dt \<le> 31
               then Some (msPerDay * MakeDay y (mo - 1) dt) else None))"

section \<open>database/event.model.ts\<close>

text \<open>\<^verbatim>\<open>/[^a-z0-9]+/g\<close> and \<^verbatim>\<open>/^-+|-+$/g\<close>\<close>

definition NON_ALNUM :: regex where
  "NON_ALNUM = Plus (Class True [Rng 0x61 0x7A, Rng 0x30 0x39])"

definition EDGE_HYPHENS :: regex where
  "EDGE_HYPHENS = Alt (Seq Bol (Plus (Lit 0x2D))) (Seq (Plus (Lit 0x2D)) Eol)"

abbreviation (input) NA :: "jschar \<Rightarrow> bool" where
  "NA \<equiv> in_class True [Rng 0x61 0x7A, Rng 0x30 0x39]"

definition generateSlug :: "(jsstring \<Rightarrow> jsstring) \<Rightarrow> jsstring \<Rightarrow> jsstring" where
  "generateSlug uni title =
     replace EDGE_HYPHENS [] (replace NON_ALNUM (js ''-'') (trim (toLowerCase uni title)))"

text \<open>
  The slug as the specification words it: lowercase, trim, replace every maximal run of
  non-alphanumeric code units by one hyphen, strip the hyphens at both ends. Alphanumeric
  is read as the ASCII letters and digits.
\<close>

definition alphanumeric :: "jschar \<Rightarrow> bool" where
  "alphanumeric c =
     ((0x30 \<le> c \<and> c \<le> 0x39) \<or> (0x41 \<le> c \<and> c \<le> 0x5A) \<or> (0x61 \<le> c \<and> c \<le> 0x7A))"

function hyphenate_runs :: "(jschar \<Rightarrow> bool) \<Rightarrow> jsstring \<Rightarrow> jsstring" where
  "hyphenate_runs P [] = []"
| "hyphenate_runs P (c # cs) =
     (if P c then 0x2D # hyphenate_runs P (dropWhile P cs) else c # hyphenate_runs P cs)"
  by pat_completeness auto
termination
  by (relation "measure (\<lambda>(P, s). length s)") (auto simp: length_dropWhile_le le_imp_less_Suc)

definition strip_hyphens :: "jsstring \<Rightarrow> jsstring" where
  "strip_hyphens s = rev (dropWhile (\<lambda>c. c = 0x2D) (rev (dropWhile (\<lambda>c. c = 0x2D) s)))"

definition generateSlug_spec :: "(jsstring \<Rightarrow> jsstring) \<Rightarrow> jsstring \<Rightarrow> jsstring" where
  "generateSlug_spec uni title =
     strip_hyphens (hyphenate_runs (\<lambda>c. \<not> alphanumeric c) (trim (toLowerCase uni title)))"

text \<open>What a slug may contain, and the two hyphens in a row that it may not.\<close>

definition slug_char :: "jschar \<Rightarrow> bool" where
  "slug_char c = ((0x61 \<le> c \<and> c \<le> 0x7A) \<or> (0x30 \<le> c \<and> c \<le> 0x39) \<or> c = 0x2D)"

fun double_hyphen :: "jsstring \<Rightarrow> bool" where
  "double_hyphen (a # b # cs) = ((a = 0x2D \<and> b = 0x2D) \<or> double_hyphen (b # cs))"
| "double_hyphen _ = False"

definition starts_with_hyphen :: "jsstring \<Rightarrow> bool" where
  "starts_with_hyphen s = (case s of [] \<Rightarrow> False | c # cs \<Rightarrow> c = 0x2D)"

definition ends_with_hyphen :: "jsstring \<Rightarrow> bool" where
  "ends_with_hyphen s = starts_with_hyphen (rev s)"

definition upper :: "jschar \<Rightarrow> bool" where
  "upper c = (0x41 \<le> c \<and> c \<le> 0x5A)"

text \<open>
  \<open>normalizeDate\<close>: \<^verbatim>\<open>new Date(date)\<close>, the test of \<^verbatim>\<open>getTime()\<close> for \<^verbatim>\<open>NaN\<close>, and
  \<^verbatim>\<open>toISOString().split("T")[0]\<close>.
\<close>

definition normalizeDate :: "(jsstring \<Rightarrow> int option) \<Rightarrow> jsstring \<Rightarrow> error + jsstring" where
  "normalizeDate impl date =
     (case Date_parse impl date of
        None \<Rightarrow> Inl (Error ''Invalid event date. Please provide a valid date.'')
      | Some t \<Rightarrow> Inr (split_first 0x54 (toISOString t)))"

text \<open>
  A canonical date: \<^verbatim>\<open>YYYY-MM-DD\<close>, four, two and two decimal digits, naming a day of
  the calendar.
\<close>

fun canonical_date :: "jsstring \<Rightarrow> bool" where
  "canonical_date [y1, y2, y3, y4, h, m1, m2, i, d1, d2] =
     (list_all digit [y1, y2, y3, y4, m1, m2, d1, d2] \<and> h = 0x2D \<and> i = 0x2D \<and>
      1 \<le> number [m1, m2] \<and> number [m1, m2] \<le> 12 \<and> 1 \<le> number [d1, d2] \<and>
      int (number [d1, d2])
        \<le> DaysInMonth (int (number [y1, y2, y3, y4])) (int (number [m1, m2]) - 1))"
| "canonical_date _ = False"

text \<open>The form \<^verbatim>\<open>YYYY-MM-DD\<close> alone: four, two and two decimal digits, whatever they say.\<close>

fun date_form :: "jsstring \<Rightarrow> bool" where
  "date_form [y1, y2, y3, y4, h, m1, m2, i, d1, d2] =
     (list_all digit [y1, y2, y3, y4, m1, m2, d1, d2] \<and> h = 0x2D \<and> i = 0x2D)"
| "date_form _ = False"

text \<open>\<^verbatim>\<open>/^([01]\d|2[0-3]):([0-5]\d)(?::[0-5]\d)?$/\<close>\<close>

definition TIME :: regex where
  "TIME =
     Seq Bol
    (Seq (Group 1 (Alt (Seq (Class False [Chr 0x30, Chr 0x31]) (Class False [Digit]))
                       (Seq (Lit 0x32) (Class False [Rng 0x30 0x33]))))
    (Seq (Lit 0x3A)
    (Seq (Group 2 (Seq (Class False [Rng 0x30 0x35]) (Class False [Digit])))
    (Seq (Opt (Seq (Lit 0x3A) (Seq (Class False [Rng 0x30 0x35]) (Class False [Digit]))))
         Eol))))"

text \<open>
  A capture that did not take part in the match is \<^verbatim>\<open>undefined\<close>, which a template
  literal prints as the text \<^verbatim>\<open>undefined\<close>.
\<close>

definition template :: "jsstring option \<Rightarrow> jsstring" where
  "template v = (case v of None \<Rightarrow> js ''undefined'' | Some s \<Rightarrow> s)"

definition normalizeTime :: "jsstring \<Rightarrow> error + jsstring" where
  "normalizeTime time =
     (case exec TIME (trim time) of
        None \<Rightarrow> Inl (Error ''Invalid event time. Expected 24h format HH:MM or HH:MM:SS.'')
      | Some (before, y) \<Rightarrow>
          Inr (template (snd (snd y) 1) @ js '':'' @ template (snd (snd y) 2)))"

text \<open>
  The form of a time as the specification words it: \<^verbatim>\<open>HH:MM\<close> or \<^verbatim>\<open>HH:MM:SS\<close>, two
  decimal digits each, the hour at most 23, the minute and the second at most 59.
\<close>

fun time_form :: "jsstring \<Rightarrow> bool" where
  "time_form [h1, h2, c1, m1, m2] =
     (two_digits 23 h1 h2 \<and> c1 = 0x3A \<and> two_digits 59 m1 m2)"
| "time_form [h1, h2, c1, m1, m2, c2, s1, s2] =
     (two_digits 23 h1 h2 \<and> c1 = 0x3A \<and> two_digits 59 m1 m2 \<and> c2 = 0x3A \<and> two_digits 59 s1 s2)"
| "time_form _ = False"

text \<open>
  The Event document, with the fields of \<^verbatim>\<open>EventDocument\<close> that the schema declares; the
  two timestamps are set by the database layer and the hook does not read them.
\<close>

record EventDocument =
  title :: jsstring
  slug :: jsstring
  description :: jsstring
  overview :: jsstring
  image :: jsstring
  venue :: jsstring
  location :: jsstring
  date :: jsstring
  time :: jsstring
  mode :: jsstring
  audience :: jsstring
  agenda :: "jsstring list"
  organizer :: jsstring
  tags :: "jsstring list"

text \<open>
  The pre-save hook. The loop over \<^verbatim>\<open>requiredStringFields\<close> throws at the first field, in
  the order of the array, that is empty after trimming (the fields are strings by their
  declared type). Then the date and the time are normalized, and the slug is generated
  when \<^verbatim>\<open>isModified("title")\<close> holds, which is the argument \<open>titleModified\<close>.
\<close>

definition requiredStringFields :: "EventDocument \<Rightarrow> (string \<times> jsstring) list" where
  "requiredStringFields event =
     [(''title'', title event), (''description'', description event),
      (''overview'', overview event), (''image'', image event), (''venue'', venue event),
      (''location'', location event), (''mode'', mode event), (''audience'', audience event),
      (''organizer'', organizer event)]"

fun first_empty :: "(string \<times> jsstring) list \<Rightarrow> string option" where
  "first_empty [] = None"
| "first_empty ((field, v) # fs) =
     (if length (trim v) = 0 then Some field else first_empty fs)"

definition pre_save ::
  "(jsstring \<Rightarrow> int option) \<Rightarrow> (jsstring \<Rightarrow> jsstring) \<Rightarrow> bool \<Rightarrow> EventDocument
     \<Rightarrow> error + EventDocument" where
  "pre_save impl uni titleModified event =
     (case first_empty (requiredStringFields event) of
        Some field \<Rightarrow>
          Inl (Error (''Field '' @ [CHR 0x22] @ field @ [CHR 0x22]
                       @ '' is required and cannot be empty.''))
      | None \<Rightarrow>
          (case normalizeDate impl (date event) of
             Inl e \<Rightarrow> Inl e
           | Inr d \<Rightarrow>
               (case normalizeTime (time event) of
                  Inl e \<Rightarrow> Inl e
                | Inr t \<Rightarrow>
                    Inr (if titleModified
                         then event\<lparr>date := d, time := t, slug := generateSlug uni (title event)\<rparr>
                         else event\<lparr>date := d, time := t\<rparr>))))"

text \<open>An event whose title is punctuation only, with every other field well formed.\<close>

definition punctuated :: EventDocument where
  "punctuated =
     \<lparr>title = js ''!!!'', slug = [], description = js ''A meetup'', overview = js ''Talks'',
      image = js ''/img.png'', venue = js ''Hall 1'', location = js ''Utrecht'',
      date = js ''2025-11-16'', time = js ''09:00'', mode = js ''offline'',
      audience = js ''Developers'', agenda = [js ''Opening''], organizer = js ''ACM'',
      tags = [js ''dev'']\<rparr>"

section \<open>The Booking model\<close>

text \<open>\<^verbatim>\<open>const EMAIL_REGEX = /^[^\s@]+@[^\s@]+\.[^\s@]+$/\<close>\<close>

definition EMAIL_REGEX :: regex where
  "EMAIL_REGEX =
     Seq Bol
    (Seq (Plus (Class True [Space, Chr 0x40]))
    (Seq (Lit 0x40)
    (Seq (Plus (Class True [Space, Chr 0x40]))
    (Seq (Lit 0x2E)
    (Seq (Plus (Class True [Space, Chr 0x40]))
         Eol)))))"

text \<open>The validator of the \<^verbatim>\<open>email\<close> path, and the same test in the pre-save hook.\<close>

definition validator :: "jsstring \<Rightarrow> bool" where
  "validator v = test EMAIL_REGEX v"

text \<open>
  The shape of an accepted address: a local part, \<^verbatim>\<open>@\<close>, a domain part, a dot and a last
  part. In the pattern each part is one or more code units that are neither white space
  nor \<^verbatim>\<open>@\<close>.
\<close>

definition email_of :: "jsstring \<Rightarrow> jsstring \<Rightarrow> jsstring \<Rightarrow> jsstring" where
  "email_of u d t = u @ [0x40] @ d @ [0x2E] @ t"

definition part :: "jsstring \<Rightarrow> bool" where
  "part x = (x \<noteq> [] \<and> list_all (\<lambda>c. \<not> isWhiteSpace c \<and> c \<noteq> 0x40) x)"

text \<open>The last part as the specification words it: one or more non-space code units.\<close>

definition non_space_part :: "jsstring \<Rightarrow> bool" where
  "non_space_part x = (x \<noteq> [] \<and> list_all (\<lambda>c. \<not> isWhiteSpace c) x)"

section \<open>The cached connection: proofs\<close>

lemma finish_simps:
  "cached (finish t P) = cached P"
  "connects (finish t P) = connects P"
  "callers (finish t P) = callers P @ [t]"
  "queue (finish t P) = queue P"
  "pending (finish t P) p = pending P p"
  by (simp_all add: finish_def pending_def)

lemma call_unconfigured:
  "unconfigured env \<Longrightarrow> connectToDatabase env P = finish (Threw (Err (Error
        ''Please define the MONGODB_URI environment variable in your environment.''))) P"
  by (auto simp: unconfigured_def connectToDatabase_def)

lemma call_cached:
  "\<not> unconfigured env \<Longrightarrow> conn (cached P) = Some h \<Longrightarrow>
     connectToDatabase env P = finish (Returned h) P"
  by (cases env) (auto simp: unconfigured_def connectToDatabase_def)

lemma await_pending: "pending P p \<Longrightarrow> await p P = finish (Awaiting p) P"
  by (simp add: await_def pending_def)

lemma call_in_flight:
  "\<not> unconfigured env \<Longrightarrow> conn (cached P) = None \<Longrightarrow> promise (cached P) = Some p \<Longrightarrow>
     pending P p \<Longrightarrow> connectToDatabase env P = finish (Awaiting p) P"
  by (cases env) (auto simp: unconfigured_def connectToDatabase_def await_pending)

lemma call_fresh:
  assumes "uri \<noteq> []" "conn (cached P) = None" "promise (cached P) = None"
  shows "connectToDatabase (Some uri) P =
           finish (Awaiting (length (connects P)))
             (P\<lparr>cached := (cached P)\<lparr>promise := Some (length (connects P))\<rparr>,
                connects := connects P @ [(uri, Pending)]\<rparr>)"
  using assms by (simp add: connectToDatabase_def await_def)

lemma run_append: "run (es @ fs) P = run fs (run es P)"
  by (induction es arbitrary: P) simp_all

lemma drain_done: "queue P = [] \<Longrightarrow> drain P = P"
  by simp

lemma drain_next: "queue P = j # rest \<Longrightarrow> drain P = drain (tick P)"
  by simp

declare drain.simps [simp del]


lemma resume_Fulfilled:
  assumes "i < length (callers S)" "callers S ! i = Awaiting q" "q < length (connects S)"
    "snd (connects S ! q) = Fulfilled h"
  shows "resume i S = S\<lparr>cached := (cached S)\<lparr>conn := Some h\<rparr>,
                         callers := (callers S)[i := Returned h]\<rparr>"
  using assms by (simp add: resume_def)

text \<open>
  A queue that holds the reactions of one settled promise and nothing else: running it
  resumes every caller that awaits the promise.
\<close>

lemma drain_reactions:
  assumes aa: "\<And>c. after_await out p c = (u c, T)" and uu: "\<And>c. u (u c) = u c"
    and nT: "\<not> awaits p T"
    and q: "queue S = map Reaction ks" and d: "distinct ks"
    and a: "\<forall>i < length (callers S). awaits p (callers S ! i) = (i \<in> set ks)"
    and b: "\<forall>i \<in> set ks. i < length (callers S)"
    and s: "p < length (connects S)" "snd (connects S ! p) = out"
  shows "drain S = S\<lparr>queue := [],
                      cached := (if ks = [] then cached S else u (cached S)),
                      callers := map (\<lambda>t. if awaits p t then T else t) (callers S)\<rparr>"
  using q d a b s
proof (induction ks arbitrary: S)
  case Nil
  have "map (\<lambda>t. if awaits p t then T else t) (callers S) = callers S"
    using Nil.prems(3) by (intro map_idI) (auto simp: in_set_conv_nth)
  then show ?case using Nil.prems(1) by (simp add: drain_done)
next
  case (Cons i ks)
  let ?g = "\<lambda>t. if awaits p t then T else t"
  have i: "i < length (callers S)" using Cons.prems(4) by simp
  then have "awaits p (callers S ! i)" using Cons.prems(3) by simp
  then have ci: "callers S ! i = Awaiting p"
    by (cases "callers S ! i") (simp_all add: awaits_def)
  define S1 where "S1 = S\<lparr>queue := map Reaction ks, cached := u (cached S),
                           callers := (callers S)[i := T]\<rparr>"
  have t: "tick S = S1"
    using Cons.prems(1) i ci Cons.prems(5,6) aa by (simp add: tick_def resume_def S1_def)
  have dr: "drain S = drain S1" using drain_next [of S] Cons.prems(1) t by simp
  have a1: "\<forall>j < length (callers S1). awaits p (callers S1 ! j) = (j \<in> set ks)"
  proof (intro allI impI)
    fix j assume j: "j < length (callers S1)"
    then have jl: "j < length (callers S)" by (simp add: S1_def)
    show "awaits p (callers S1 ! j) = (j \<in> set ks)"
    proof (cases "j = i")
      case True
      then show ?thesis using nT i Cons.prems(2) by (simp add: S1_def)
    next
      case False
      then show ?thesis using Cons.prems(3) jl by (simp add: S1_def)
    qed
  qed
  have "drain S1 = S1\<lparr>queue := [],
                      cached := (if ks = [] then cached S1 else u (cached S1)),
                      callers := map ?g (callers S1)\<rparr>"
    using Cons.prems a1 by (intro Cons.IH) (simp_all add: S1_def)
  moreover have "map ?g (callers S1) = map ?g (callers S)"
  proof -
    have "map ?g (callers S1) = (map ?g (callers S))[i := ?g T]"
      by (simp add: S1_def map_update)
    also have "\<dots> = (map ?g (callers S))[i := map ?g (callers S) ! i]"
      using nT i ci by (simp add: awaits_def)
    also have "\<dots> = map ?g (callers S)" by (rule list_update_id)
    finally show ?thesis .
  qed
  moreover have "(if ks = [] then cached S1 else u (cached S1)) = u (cached S)"
    by (simp add: S1_def uu)
  ultimately show ?case unfolding dr by (simp add: S1_def)
qed

lemma reactions_empty:
  "(filter (\<lambda>i. awaits p (ts ! i)) [0..<length ts] = []) = (\<forall>t \<in> set ts. \<not> awaits p t)"
  by (auto simp: filter_empty_conv all_set_conv_all_nth)

text \<open>
  A pending promise settles while no job is queued, and the queue is run: every caller
  that awaits the promise goes on, and the others are left as they are.
\<close>

lemma drain_settle:
  assumes aa: "\<And>c. after_await out p c = (u c, T)" and uu: "\<And>c. u (u c) = u c"
    and nT: "\<not> awaits p T"
    and st: "settle p out P = P\<lparr>connects := (connects P)[p := (fst (connects P ! p), out)],
                                  queue := queue P @ reactions p (callers P)\<rparr>"
    and pe: "pending P p" and q: "queue P = []"
  shows "drain (settle p out P) =
           P\<lparr>connects := (connects P)[p := (fst (connects P ! p), out)],
             queue := [],
             cached := (if \<forall>t \<in> set (callers P). \<not> awaits p t then cached P
                        else u (cached P)),
             callers := map (\<lambda>t. if awaits p t then T else t) (callers P)\<rparr>"
proof -
  define ks where "ks = filter (\<lambda>i. awaits p (callers P ! i)) [0..<length (callers P)]"
  define S where "S = P\<lparr>connects := (connects P)[p := (fst (connects P ! p), out)],
                         queue := map Reaction ks\<rparr>"
  have S: "settle p out P = S" using st q by (simp add: S_def ks_def reactions_def)
  have pl: "p < length (connects P)" using pe by (simp add: pending_def)
  have "drain S = S\<lparr>queue := [],
                     cached := (if ks = [] then cached S else u (cached S)),
                     callers := map (\<lambda>t. if awaits p t then T else t) (callers S)\<rparr>"
  proof (rule drain_reactions [OF aa uu nT])
    show "queue S = map Reaction ks" by (simp add: S_def)
    show "distinct ks" by (simp add: ks_def)
    show "\<forall>i < length (callers S). awaits p (callers S ! i) = (i \<in> set ks)"
      by (simp add: S_def ks_def)
    show "\<forall>i \<in> set ks. i < length (callers S)" by (simp add: S_def ks_def)
    show "p < length (connects S)" using pl by (simp add: S_def)
    show "snd (connects S ! p) = out" using pl by (simp add: S_def)
  qed
  moreover have "(ks = []) = (\<forall>t \<in> set (callers P). \<not> awaits p t)"
    unfolding ks_def by (rule reactions_empty)
  ultimately show ?thesis unfolding S by (simp add: S_def)
qed


lemma drain_settle_Fulfilled:
  assumes pe: "pending P p" and q: "queue P = []"
  shows "drain (settle p (Fulfilled h) P) =
           P\<lparr>connects := (connects P)[p := (fst (connects P ! p), Fulfilled h)],
             queue := [],
             cached := (if \<forall>t \<in> set (callers P). \<not> awaits p t then cached P
                        else (cached P)\<lparr>conn := Some h\<rparr>),
             callers := map (\<lambda>t. if awaits p t then Returned h else t) (callers P)\<rparr>"
  by (rule drain_settle [where u = "\<lambda>c. c\<lparr>conn := Some h\<rparr>", OF _ _ _ _ pe q])
     (simp_all add: awaits_def settle_def pe)

text \<open>Calls made while an attempt is in flight are all suspended on it.\<close>

lemma calls_in_flight:
  assumes "pending P p" "conn (cached P) = None" "promise (cached P) = Some p"
    and "\<forall>env \<in> set envs. \<not> unconfigured env"
  shows "run (map Call envs) P = P\<lparr>callers := callers P @ replicate (length envs) (Awaiting p)\<rparr>"
  using assms
proof (induction envs arbitrary: P)
  case Nil
  then show ?case by simp
next
  case (Cons env envs)
  let ?Q = "finish (Awaiting p) P"
  have st: "connectToDatabase env P = ?Q"
    using Cons.prems by (simp add: call_in_flight)
  have "run (map Call envs) ?Q =
      ?Q\<lparr>callers := callers ?Q @ replicate (length envs) (Awaiting p)\<rparr>"
    using Cons.prems by (intro Cons.IH) (simp_all add: finish_simps)
  then show ?case using st
    by (simp add: finish_def)
qed

lemma first_calls:
  assumes c: "conn (cached P) = None"
    and pr: "promise (cached P) = None"
    and u: "uri \<noteq> []" "[] \<notin> set uris"
  shows "run (map (\<lambda>u. Call (Some u)) (uri # uris)) P =
           P\<lparr>cached := (cached P)\<lparr>promise := Some (length (connects P))\<rparr>,
             connects := connects P @ [(uri, Pending)],
             callers := callers P @ replicate (Suc (length uris)) (Awaiting (length (connects P)))\<rparr>"
proof -
  let ?Q = "connectToDatabase (Some uri) P"
  have Q: "?Q = finish (Awaiting (length (connects P)))
         (P\<lparr>cached := (cached P)\<lparr>promise := Some (length (connects P))\<rparr>,
            connects := connects P @ [(uri, Pending)]\<rparr>)"
    by (rule call_fresh [OF u(1) c pr])
  have "run (map Call (map Some uris)) ?Q =
      ?Q\<lparr>callers := callers ?Q @ replicate (length (map Some uris)) (Awaiting (length (connects P)))\<rparr>"
    using u(2) c
    by (intro calls_in_flight) (auto simp: Q finish_def unconfigured_def pending_def)
  then show ?thesis
    by (simp add: Q finish_def comp_def)
qed

text \<open>
  Calls that start with nothing cached, nothing in flight and no job queued, and that are
  all made before the attempt settles: one connection attempt is added, every caller is
  suspended on that promise, and when it is fulfilled with \<open>h\<close> and the queued
  continuations have run, every one of them has returned \<open>h\<close>, which is the cached
  handle.
\<close>

lemma first_time_calls_share_one_attempt:
  assumes q: "queue P = []" and c: "conn (cached P) = None"
    and pr: "promise (cached P) = None"
    and u: "uri \<noteq> []" "[] \<notin> set uris"
  shows "connects (run (map (\<lambda>u. Call (Some u)) (uri # uris)) P)
           = connects P @ [(uri, Pending)] \<and>
         callers (run (map (\<lambda>u. Call (Some u)) (uri # uris)) P)
           = callers P @ replicate (Suc (length uris)) (Awaiting (length (connects P))) \<and>
         connects (drain (run (map (\<lambda>u. Call (Some u)) (uri # uris)
                          @ [Settle (length (connects P)) (Fulfilled h)]) P))
           = connects P @ [(uri, Fulfilled h)] \<and>
         drop (length (callers P))
           (callers (drain (run (map (\<lambda>u. Call (Some u)) (uri # uris)
                          @ [Settle (length (connects P)) (Fulfilled h)]) P)))
           = replicate (Suc (length uris)) (Returned h) \<and>
         conn (cached (drain (run (map (\<lambda>u. Call (Some u)) (uri # uris)
                          @ [Settle (length (connects P)) (Fulfilled h)]) P))) = Some h"
proof -
  let ?n = "length (connects P)"
  let ?Q = "run (map (\<lambda>u. Call (Some u)) (uri # uris)) P"
  have Q: "?Q = P\<lparr>cached := (cached P)\<lparr>promise := Some ?n\<rparr>,
             connects := connects P @ [(uri, Pending)],
             callers := callers P @ replicate (Suc (length uris)) (Awaiting ?n)\<rparr>"
    by (rule first_calls [OF c pr u])
  have pe: "pending ?Q ?n" unfolding Q by (simp add: pending_def)
  have qQ: "queue ?Q = []" unfolding Q using q by simp
  have S: "run (map (\<lambda>u. Call (Some u)) (uri # uris) @ [Settle ?n (Fulfilled h)]) P
            = settle ?n (Fulfilled h) ?Q"
    by (simp only: run_append run.simps step.simps)
  have aw: "\<not> (\<forall>t \<in> set (callers ?Q). \<not> awaits ?n t)"
    unfolding Q by (simp add: awaits_def)
  have "connects (drain (settle ?n (Fulfilled h) ?Q)) = connects P @ [(uri, Fulfilled h)]"
    "drop (length (callers P)) (callers (drain (settle ?n (Fulfilled h) ?Q)))
       = replicate (Suc (length uris)) (Returned h)"
    "conn (cached (drain (settle ?n (Fulfilled h) ?Q))) = Some h"
    unfolding drain_settle_Fulfilled [OF pe qQ] using aw unfolding Q
    by (simp_all add: awaits_def)
  moreover have "connects ?Q = connects P @ [(uri, Pending)]"
    "callers ?Q = callers P @ replicate (Suc (length uris)) (Awaiting ?n)"
    unfolding Q by simp_all
  ultimately show ?thesis unfolding S by (intro conjI)
qed

text \<open>The invariant \<open>coherent\<close>: every step of the process keeps it.\<close>

lemma reaction_queued_iff:
  "reaction_queued p P =
     (\<exists>i. Reaction i \<in> set (queue P) \<and> i < length (callers P) \<and> callers P ! i = Awaiting p)"
  unfolding reaction_queued_def list_ex_iff
proof
  assume "\<exists>j \<in> set (queue P). case j of
                Reaction i \<Rightarrow> i < length (callers P) \<and> awaits p (callers P ! i)
              | Deferred env \<Rightarrow> False"
  then obtain j where j: "j \<in> set (queue P)" "case j of
                Reaction i \<Rightarrow> i < length (callers P) \<and> awaits p (callers P ! i)
              | Deferred env \<Rightarrow> False" by blast
  obtain i where "j = Reaction i" "i < length (callers P)" "awaits p (callers P ! i)"
    using j(2) by (cases j) simp_all
  then show "\<exists>i. Reaction i \<in> set (queue P) \<and> i < length (callers P) \<and> callers P ! i = Awaiting p"
    using j(1) by (cases "callers P ! i") (auto simp: awaits_def)
next
  assume "\<exists>i. Reaction i \<in> set (queue P) \<and> i < length (callers P) \<and> callers P ! i = Awaiting p"
  then obtain i where "Reaction i \<in> set (queue P)" "i < length (callers P)" "callers P ! i = Awaiting p"
    by blast
  then show "\<exists>j \<in> set (queue P). case j of
                Reaction i \<Rightarrow> i < length (callers P) \<and> awaits p (callers P ! i)
              | Deferred env \<Rightarrow> False"
    by (intro bexI [of _ "Reaction i"]) (simp_all add: awaits_def)
qed

lemma awaited_iff: "list_ex (awaits p) ts = (\<exists>i < length ts. ts ! i = Awaiting p)"
proof -
  have "awaits p t = (t = Awaiting p)" for t :: "('a, 'b) task"
    by (cases t) (auto simp: awaits_def)
  then show ?thesis by (auto simp: list_ex_iff in_set_conv_nth)
qed

lemma coherent_initial: "coherent initial"
  by (simp add: coherent_def initial_def)

lemma coherentI:
  assumes "\<And>p. promise (cached P) = Some p \<Longrightarrow> p < length (connects P)"
    and "\<And>p. promise (cached P) = Some p \<Longrightarrow> snd (connects P ! p) = Pending \<Longrightarrow>
           \<exists>i < length (callers P). callers P ! i = Awaiting p"
    and "\<And>p h. promise (cached P) = Some p \<Longrightarrow> snd (connects P ! p) = Fulfilled h \<Longrightarrow>
           conn (cached P) \<noteq> None \<or> reaction_queued p P"
    and "\<And>p e. promise (cached P) = Some p \<Longrightarrow> snd (connects P ! p) = Rejected e \<Longrightarrow>
           reaction_queued p P"
  shows "coherent P"
  using assms unfolding coherent_def awaited_iff
  by (auto split: option.split settled.split)

lemma coherentD:
  assumes "coherent P" "promise (cached P) = Some p"
  shows "p < length (connects P)"
    and "snd (connects P ! p) = Pending \<Longrightarrow> \<exists>i < length (callers P). callers P ! i = Awaiting p"
    and "snd (connects P ! p) = Fulfilled h \<Longrightarrow> conn (cached P) \<noteq> None \<or> reaction_queued p P"
    and "snd (connects P ! p) = Rejected e \<Longrightarrow> reaction_queued p P"
  using assms unfolding coherent_def awaited_iff
  by (auto split: option.splits settled.splits)


lemma coherent_grow:
  assumes co: "coherent P" and c: "cached Q = cached P" and n: "connects Q = connects P"
    and t: "callers Q = callers P @ ts" and j: "set (queue P) \<subseteq> set (queue Q)"
  shows "coherent Q"
proof (rule coherentI)
  fix p assume p: "promise (cached Q) = Some p"
  then have pP: "promise (cached P) = Some p" by (simp add: c)
  show "p < length (connects Q)" using coherentD(1) [OF co pP] by (simp add: n)
  have up: "reaction_queued p P \<Longrightarrow> reaction_queued p Q"
    unfolding reaction_queued_iff using j t by (auto simp: nth_append)
  {
    assume "snd (connects Q ! p) = Pending"
    then obtain i where "i < length (callers P)" "callers P ! i = Awaiting p"
      using coherentD(2) [OF co pP] by (auto simp: n)
    then show "\<exists>i < length (callers Q). callers Q ! i = Awaiting p"
      by (intro exI [of _ i]) (simp add: t nth_append)
  }
  {
    fix h assume "snd (connects Q ! p) = Fulfilled h"
    then show "conn (cached Q) \<noteq> None \<or> reaction_queued p Q"
      using coherentD(3) [OF co pP, of h] up by (auto simp: n c)
  }
  {
    fix e assume "snd (connects Q ! p) = Rejected e"
    then show "reaction_queued p Q"
      using coherentD(4) [OF co pP, of e] up by (auto simp: n)
  }
qed

lemma coherent_finish:
  assumes "coherent P"
  shows "coherent (finish t P)"
  by (rule coherent_grow [OF assms, where ts = "[t]"]) (simp_all add: finish_def)

lemma coherent_await:
  assumes "coherent P"
  shows "coherent (await p P)"
  by (rule coherent_grow [OF assms, where ts = "[Awaiting p]"])
     (auto simp: await_def finish_def split: settled.split)

lemma coherent_call: "coherent P \<Longrightarrow> coherent (connectToDatabase env P)"
proof -
  assume co: "coherent P"
  have fresh: "coherent (await (length (connects P))
                 (P\<lparr>cached := (cached P)\<lparr>promise := Some (length (connects P))\<rparr>,
                    connects := connects P @ [(uri, Pending)]\<rparr>))" for uri
    by (simp add: await_def finish_def coherent_def awaits_def)
  show ?thesis
    unfolding connectToDatabase_def
    by (simp add: co coherent_finish coherent_await fresh split: option.split)
qed

lemma in_reactions:
  "i < length ts \<Longrightarrow> ts ! i = Awaiting p \<Longrightarrow> Reaction i \<in> set (reactions p ts)"
  by (simp add: reactions_def awaits_def)

lemma coherent_settle:
  assumes co: "coherent P"
  shows "coherent (settle p out P)"
proof (cases "pending P p \<and> out \<noteq> Pending")
  case False
  then have "settle p out P = P" by (cases out) (simp_all add: settle_def)
  then show ?thesis using co by simp
next
  case True
  define Q where "Q = P\<lparr>connects := (connects P)[p := (fst (connects P ! p), out)],
                         queue := queue P @ reactions p (callers P)\<rparr>"
  have Q: "settle p out P = Q" using True by (cases out) (simp_all add: settle_def Q_def)
  have pl: "p < length (connects P)" "snd (connects P ! p) = Pending"
    using True by (simp_all add: pending_def)
  have "coherent Q"
  proof (rule coherentI)
    fix r assume r: "promise (cached Q) = Some r"
    then have rP: "promise (cached P) = Some r" by (simp add: Q_def)
    show "r < length (connects Q)" using coherentD(1) [OF co rP] by (simp add: Q_def)
    have up: "reaction_queued r P \<Longrightarrow> reaction_queued r Q"
      unfolding reaction_queued_iff by (auto simp: Q_def)
    have same: "r \<noteq> p \<Longrightarrow> snd (connects Q ! r) = snd (connects P ! r)"
      by (simp add: Q_def)
    have here: "reaction_queued p Q" if rp: "r = p"
    proof -
      obtain i where "i < length (callers P)" "callers P ! i = Awaiting p"
        using coherentD(2) [OF co rP] rp pl by auto
      then show ?thesis
        unfolding reaction_queued_iff
        by (intro exI [of _ i]) (simp add: Q_def in_reactions)
    qed
    {
      assume a: "snd (connects Q ! r) = Pending"
      have "r \<noteq> p" using a pl True by (auto simp: Q_def)
      then show "\<exists>i < length (callers Q). callers Q ! i = Awaiting r"
        using coherentD(2) [OF co rP] a same by (simp add: Q_def)
    }
    {
      fix h assume a: "snd (connects Q ! r) = Fulfilled h"
      show "conn (cached Q) \<noteq> None \<or> reaction_queued r Q"
      proof (cases "r = p")
        case True
        then show ?thesis using here by simp
      next
        case False
        then show ?thesis using coherentD(3) [OF co rP, of h] a same up by (auto simp: Q_def)
      qed
    }
    {
      fix e assume a: "snd (connects Q ! r) = Rejected e"
      show "reaction_queued r Q"
      proof (cases "r = p")
        case True
        then show ?thesis using here by simp
      next
        case False
        then show ?thesis using coherentD(4) [OF co rP, of e] a same up by auto
      qed
    }
  qed
  then show ?thesis by (simp add: Q)
qed


lemma coherent_drop:
  assumes co: "coherent P" and q: "queue P = j # rest"
    and nr: "\<And>i r. j = Reaction i \<Longrightarrow> i < length (callers P) \<Longrightarrow>
               callers P ! i = Awaiting r \<Longrightarrow> promise (cached P) = Some r \<Longrightarrow>
               snd (connects P ! r) = Pending"
  shows "coherent (P\<lparr>queue := rest\<rparr>)"
proof (rule coherentI)
  let ?Q = "P\<lparr>queue := rest\<rparr>"
  fix p assume "promise (cached ?Q) = Some p"
  then have pP: "promise (cached P) = Some p" by simp
  show "p < length (connects ?Q)" using coherentD(1) [OF co pP] by simp
  have keep: "reaction_queued p ?Q"
    if rq: "reaction_queued p P" and np: "snd (connects P ! p) \<noteq> Pending"
  proof -
    obtain i where i: "Reaction i \<in> set (queue P)" "i < length (callers P)"
        "callers P ! i = Awaiting p"
      using rq unfolding reaction_queued_iff by blast
    have "j \<noteq> Reaction i" using nr [of i p] i pP np by auto
    then have "Reaction i \<in> set rest" using i(1) q by auto
    then show ?thesis unfolding reaction_queued_iff using i by (intro exI [of _ i]) simp
  qed
  {
    assume "snd (connects ?Q ! p) = Pending"
    then show "\<exists>i < length (callers ?Q). callers ?Q ! i = Awaiting p"
      using coherentD(2) [OF co pP] by simp
  }
  {
    fix h assume a: "snd (connects ?Q ! p) = Fulfilled h"
    then show "conn (cached ?Q) \<noteq> None \<or> reaction_queued p ?Q"
      using coherentD(3) [OF co pP, of h] keep by auto
  }
  {
    fix e assume a: "snd (connects ?Q ! p) = Rejected e"
    then show "reaction_queued p ?Q"
      using coherentD(4) [OF co pP, of e] keep by auto
  }
qed

lemma coherent_resume:
  assumes co: "coherent P" and q: "queue P = Reaction i # rest"
  shows "coherent (resume i (P\<lparr>queue := rest\<rparr>))"
proof -
  let ?P = "P\<lparr>queue := rest\<rparr>"
  consider
      (idle) "\<And>r. i < length (callers P) \<Longrightarrow> callers P ! i = Awaiting r \<Longrightarrow>
                r < length (connects P) \<Longrightarrow> snd (connects P ! r) = Pending"
    | (rejected) r e where "i < length (callers P)" "callers P ! i = Awaiting r"
        "r < length (connects P)" "snd (connects P ! r) = Rejected e"
    | (fulfilled) r h where "i < length (callers P)" "callers P ! i = Awaiting r"
        "r < length (connects P)" "snd (connects P ! r) = Fulfilled h"
  proof (cases "i < length (callers P)")
    case False
    then show ?thesis using that(1) by simp
  next
    case il: True
    show ?thesis
    proof (cases "callers P ! i")
      case (Awaiting r)
      show ?thesis
      proof (cases "r < length (connects P)")
        case True
        then show ?thesis using that il Awaiting by (cases "snd (connects P ! r)") auto
      next
        case False
        then show ?thesis using that(1) Awaiting by simp
      qed
    qed (use that(1) in simp_all)
  qed
  then show ?thesis
  proof cases
    case idle
    have "resume i ?P = ?P"
      using idle
      by (auto simp: resume_def list_update_same_conv split: task.split)
    moreover have "coherent ?P"
    proof (rule coherent_drop [OF co q])
      fix k r
      assume "Reaction i = Reaction k" "k < length (callers P)" "callers P ! k = Awaiting r"
        "promise (cached P) = Some r"
      then show "snd (connects P ! r) = Pending"
        using idle [of r] coherentD(1) [OF co, of r] by simp
    qed
    ultimately show ?thesis by simp
  next
    case rejected
    then have "promise (cached (resume i ?P)) = None"
      by (simp add: resume_def)
    then show ?thesis by (simp add: coherent_def)
  next
    case fulfilled
    define Q where "Q = P\<lparr>queue := rest, cached := (cached P)\<lparr>conn := Some h\<rparr>,
                           callers := (callers P)[i := Returned h]\<rparr>"
    have Q: "resume i ?P = Q" using fulfilled by (simp add: resume_def Q_def)
    have "coherent Q"
    proof (rule coherentI)
      fix p assume "promise (cached Q) = Some p"
      then have pP: "promise (cached P) = Some p" by (simp add: Q_def)
      show "p < length (connects Q)" using coherentD(1) [OF co pP] by (simp add: Q_def)
      {
        assume a: "snd (connects Q ! p) = Pending"
        then obtain k where k: "k < length (callers P)" "callers P ! k = Awaiting p"
          using coherentD(2) [OF co pP] by (auto simp: Q_def)
        have "k \<noteq> i" using k fulfilled a by (auto simp: Q_def)
        then show "\<exists>k < length (callers Q). callers Q ! k = Awaiting p"
          using k by (intro exI [of _ k]) (simp add: Q_def)
      }
      {
        fix h' assume "snd (connects Q ! p) = Fulfilled h'"
        show "conn (cached Q) \<noteq> None \<or> reaction_queued p Q" by (simp add: Q_def)
      }
      {
        fix e assume a: "snd (connects Q ! p) = Rejected e"
        then have "reaction_queued p P" using coherentD(4) [OF co pP, of e] by (simp add: Q_def)
        then obtain k where k: "Reaction k \<in> set (queue P)" "k < length (callers P)"
            "callers P ! k = Awaiting p"
          unfolding reaction_queued_iff by blast
        have ki: "k \<noteq> i" using k fulfilled a by (auto simp: Q_def)
        then have "Reaction k \<in> set rest" using k(1) q by auto
        then show "reaction_queued p Q"
          unfolding reaction_queued_iff using k ki by (intro exI [of _ k]) (simp add: Q_def)
      }
    qed
    then show ?thesis by (simp add: Q)
  qed
qed

lemma coherent_tick:
  assumes co: "coherent P"
  shows "coherent (tick P)"
proof (cases "queue P")
  case Nil
  then show ?thesis using co by (simp add: tick_def)
next
  case (Cons j rest)
  show ?thesis
  proof (cases j)
    case (Reaction i)
    then show ?thesis using coherent_resume [OF co, of i rest] Cons by (simp add: tick_def)
  next
    case (Deferred env)
    have "coherent (P\<lparr>queue := rest\<rparr>)"
      by (rule coherent_drop [OF co Cons]) (simp add: Deferred)
    then show ?thesis using Cons Deferred by (simp add: tick_def coherent_call)
  qed
qed

lemma coherent_step: "coherent P \<Longrightarrow> coherent (step ev P)"
proof (cases ev)
  case (Defer env)
  assume co: "coherent P"
  have "coherent (P\<lparr>queue := queue P @ [Deferred env]\<rparr>)"
    by (rule coherent_grow [OF co, where ts = "[]"]) auto
  then show ?thesis using Defer by simp
qed (simp_all add: coherent_call coherent_settle coherent_tick)

lemma coherent_run: "coherent P \<Longrightarrow> coherent (run es P)"
  by (induction es arbitrary: P) (simp_all add: coherent_step)

lemma coherent_reachable: "coherent (run es initial)"
  by (rule coherent_run [OF coherent_initial])

lemma coherent_drain: "coherent P \<Longrightarrow> coherent (drain P)"
proof (induction P rule: drain.induct)
  case (1 P)
  show ?case
  proof (cases "queue P = []")
    case True
    then show ?thesis using 1 by (simp add: drain_done)
  next
    case False
    then have "drain P = drain (tick P)" by (subst drain.simps) simp
    then show ?thesis using 1 False by (simp add: coherent_tick)
  qed
qed

lemma quiescent_in_flight_or_idle:
  assumes co: "coherent P" and q: "queue P = []" and c: "conn (cached P) = None"
  shows "in_flight_or_idle P"
proof (cases "promise (cached P)")
  case None
  then show ?thesis by (simp add: in_flight_or_idle_def)
next
  case (Some p)
  have nq: "\<not> reaction_queued p P" using q by (simp add: reaction_queued_def)
  have "snd (connects P ! p) = Pending"
    using coherentD(3,4) [OF co Some] nq c by (cases "snd (connects P ! p)") auto
  then show ?thesis using coherentD(1) [OF co Some] Some
    by (simp add: in_flight_or_idle_def pending_def)
qed

text \<open>
  In every state that the process reaches, when no job is queued and no handle is cached,
  the cached promise (when there is one) is pending.
\<close>

lemma reachable_quiescent:
  "queue (run es initial) = [] \<Longrightarrow> conn (cached (run es initial)) = None \<Longrightarrow>
     in_flight_or_idle (run es initial)"
  by (rule quiescent_in_flight_or_idle [OF coherent_reachable])

text \<open>
  Claim C2, as the code has it. The configuration is checked before the cache
  (lines 37 to 43 come before line 46): when the connection URI is configured and a handle is
  cached, the call returns that handle, fails in no way, and changes neither the cache nor
  the list of connection attempts; when the URI is absent (undefined or empty), the call
  throws the configuration error, whatever the cache holds.
\<close>

theorem connectToDatabase_cached_or_unconfigured:
  "(\<not> unconfigured env \<longrightarrow> conn (cached P) = Some h \<longrightarrow>
      connectToDatabase env P = P\<lparr>callers := callers P @ [Returned h]\<rparr>) \<and>
   (unconfigured env \<longrightarrow>
      connectToDatabase env P = P\<lparr>callers := callers P @ [Threw (Err (Error
        ''Please define the MONGODB_URI environment variable in your environment.''))]\<rparr>)"
  using call_cached [of env P h] call_unconfigured [of env P] by (simp add: finish_def)

theorem connectToDatabase_cached_or_unconfigured_witness:
  "connectToDatabase (Some (js ''mongodb://db'')) (warm :: (nat, unit) process) =
     warm\<lparr>callers := callers warm @ [Returned 7]\<rparr> \<and>
   connectToDatabase None (warm :: (nat, unit) process) =
     warm\<lparr>callers := callers warm @ [Threw (Err (Error
        ''Please define the MONGODB_URI environment variable in your environment.''))]\<rparr>"
  using connectToDatabase_cached_or_unconfigured [of "Some (js ''mongodb://db'')" warm 7]
    connectToDatabase_cached_or_unconfigured [of None warm 7]
  by (simp add: unconfigured_def js_def warm_def initial_def connectToDatabase_def finish_def
        await_def settle_def pending_def reactions_def awaits_def tick_def resume_def)

text \<open>
  Claim C2 as stated fails: in the process \<open>warm\<close> a handle is cached, and a call made
  while the URI is absent does not return it but throws.
\<close>

theorem cached_handle_unconfigured_counterexample:
  "conn (cached (warm :: (nat, unit) process)) = Some 7 \<and>
   callers (connectToDatabase None (warm :: (nat, unit) process)) =
     [Returned 7, Threw (Err (Error
        ''Please define the MONGODB_URI environment variable in your environment.''))]"
  by (simp add: js_def warm_def initial_def connectToDatabase_def finish_def
        await_def settle_def pending_def reactions_def awaits_def tick_def resume_def)



text \<open>
  Claim C9 does not hold of the code. The catch block (lines 60 to 64) resets
  \<^verbatim>\<open>cached.promise\<close> without looking whether it still holds the promise that failed. In
  the interleaving \<open>retry_race\<close> the catch block of \<open>c1\<close> runs after \<open>c2\<close> has issued the
  second attempt, and removes its marker: \<open>c3\<close> then issues a third attempt while the second
  is pending, no handle being cached. Two attempts are in flight together, \<open>c2\<close> awaits one
  and \<open>c3\<close> the other, and each returns the result of its own attempt.
\<close>

theorem retry_race_issues_second_attempt:
  "connects (run retry_race initial) =
     [(js ''mongodb://db'', Rejected ''ECONNREFUSED''), (js ''mongodb://db'', Pending),
      (js ''mongodb://db'', Pending)] \<and>
   callers (run retry_race initial) =
     [Threw (Reason ''ECONNREFUSED''), Threw (Reason ''ECONNREFUSED''), Awaiting 1, Awaiting 2] \<and>
   cached (run retry_race initial) = \<lparr>conn = None, promise = Some 2\<rparr> \<and>
   queue (run retry_race initial) = [] \<and>
   callers (run (retry_race @ [Settle 1 (Fulfilled 1), Tick, Settle 2 (Fulfilled 2), Tick])
              initial) =
     [Threw (Reason ''ECONNREFUSED''), Threw (Reason ''ECONNREFUSED''), Returned 1, Returned 2]"
  by (simp add: retry_race_def initial_def connectToDatabase_def finish_def await_def
        settle_def js_def pending_def reactions_def awaits_def tick_def resume_def)

section \<open>The matcher on the patterns of the source\<close>

lemma single_Lit: "single (Lit a) (\<lambda>c. c = a)"
  by (simp add: single_def split: list.splits)

lemma single_Class: "single (Class neg items) (in_class neg items)"
  by (simp add: single_def split: list.splits)

lemma upt_Suc_shift: "[0..<Suc n] = 0 # map Suc [0..<n]"
  by (simp add: upt_conv_Cons map_Suc_upt del: upt_Suc)

lemma m_Star_single:
  assumes a: "single a P"
  shows "m (Star a) (pre, rest, c) =
           map (\<lambda>k. (rev (take k rest) @ pre, drop k rest, c))
               (rev [0..<Suc (length (takeWhile P rest))])"
proof (induction rest arbitrary: pre)
  case Nil
  show ?case using a by (simp add: m_Star [of a "(pre, [], c)"] single_def)
next
  case (Cons ch rs)
  show ?case
  proof (cases "P ch")
    case True
    have "m (Star a) (pre, ch # rs, c) = m (Star a) (ch # pre, rs, c) @ [(pre, ch # rs, c)]"
      using a True by (simp add: m_Star [of a "(pre, ch # rs, c)"] single_def ahead_def)
    also have "\<dots> = map (\<lambda>k. (rev (take k (ch # rs)) @ pre, drop k (ch # rs), c))
               (rev [0..<Suc (Suc (length (takeWhile P rs)))])"
      unfolding Cons.IH upt_Suc_shift [of "Suc (length (takeWhile P rs))"]
      by (simp add: rev_map [symmetric] comp_def del: upt_Suc)
    finally show ?thesis using True by simp
  next
    case False
    then show ?thesis using a by (simp add: m_Star [of a "(pre, ch # rs, c)"] single_def)
  qed
qed

lemma m_Star_single_hd:
  assumes a: "single a P"
  shows "\<exists>ys. m (Star a) (pre, rest, c) =
           (rev (takeWhile P rest) @ pre, dropWhile P rest, c) # ys"
proof -
  have "take (length (takeWhile P rest)) rest = takeWhile P rest"
    by (metis append_eq_conv_conj takeWhile_dropWhile_id)
  moreover have "drop (length (takeWhile P rest)) rest = dropWhile P rest"
    by (metis append_eq_conv_conj takeWhile_dropWhile_id)
  ultimately show ?thesis unfolding m_Star_single [OF a] by simp
qed

lemma exists_split_Cons:
  "(\<exists>u v. ch # rs = u @ v \<and> list_all P u \<and> Q u v) \<longleftrightarrow>
     Q [] (ch # rs) \<or> (P ch \<and> (\<exists>u v. rs = u @ v \<and> list_all P u \<and> Q (ch # u) v))"
  (is "?L \<longleftrightarrow> ?R")
proof
  assume ?L
  then obtain u v where uv: "ch # rs = u @ v" "list_all P u" "Q u v" by blast
  show ?R
  proof (cases u)
    case Nil
    then show ?thesis using uv by simp
  next
    case (Cons x u')
    then have "x = ch" "rs = u' @ v" "P ch" "list_all P u'" using uv by simp_all
    then show ?thesis using uv(3) Cons by blast
  qed
next
  assume ?R
  then show ?L
  proof
    assume "Q [] (ch # rs)"
    then have "ch # rs = [] @ (ch # rs) \<and> list_all P [] \<and> Q [] (ch # rs)" by simp
    then show ?L by blast
  next
    assume "P ch \<and> (\<exists>u v. rs = u @ v \<and> list_all P u \<and> Q (ch # u) v)"
    then obtain u v where "P ch" "rs = u @ v" "list_all P u" "Q (ch # u) v" by blast
    then have "ch # rs = (ch # u) @ v \<and> list_all P (ch # u) \<and> Q (ch # u) v" by simp
    then show ?L by blast
  qed
qed

lemma m_Star_single_mem:
  assumes a: "single a P"
  shows "y \<in> set (m (Star a) (pre, rest, c)) \<longleftrightarrow>
           (\<exists>u v. rest = u @ v \<and> list_all P u \<and> y = (rev u @ pre, v, c))"
proof (induction rest arbitrary: pre)
  case Nil
  show ?case using a by (simp add: m_Star [of a "(pre, [], c)"] single_def)
next
  case (Cons ch rs)
  show ?case
  proof (cases "P ch")
    case True
    have "m (Star a) (pre, ch # rs, c) = m (Star a) (ch # pre, rs, c) @ [(pre, ch # rs, c)]"
      using a True by (simp add: m_Star [of a "(pre, ch # rs, c)"] single_def ahead_def)
    then have "y \<in> set (m (Star a) (pre, ch # rs, c)) \<longleftrightarrow>
        y = (pre, ch # rs, c) \<or> (\<exists>u v. rs = u @ v \<and> list_all P u \<and> y = (rev u @ ch # pre, v, c))"
      using Cons.IH [of "ch # pre"] by (simp add: disj_commute)
    then show ?thesis
      unfolding exists_split_Cons [of ch rs P "\<lambda>u v. y = (rev u @ pre, v, c)"] using True by simp
  next
    case False
    have "m (Star a) (pre, ch # rs, c) = [(pre, ch # rs, c)]"
      using a False by (simp add: m_Star [of a "(pre, ch # rs, c)"] single_def)
    then show ?thesis
      unfolding exists_split_Cons [of ch rs P "\<lambda>u v. y = (rev u @ pre, v, c)"] using False by simp
  qed
qed

lemma m_Plus_single:
  assumes a: "single a P"
  shows "m (Plus a) (pre, rest, c) =
     (case rest of [] \<Rightarrow> [] | ch # rs \<Rightarrow> if P ch then m (Star a) (ch # pre, rs, c) else [])"
  using a by (simp add: Plus_def single_def split: list.splits)

lemma m_Plus_single_mem:
  assumes a: "single a P"
  shows "y \<in> set (m (Plus a) (pre, rest, c)) \<longleftrightarrow>
           (\<exists>u v. rest = u @ v \<and> u \<noteq> [] \<and> list_all P u \<and> y = (rev u @ pre, v, c))"
proof (cases rest)
  case Nil
  then show ?thesis by (simp add: m_Plus_single [OF a])
next
  case (Cons ch rs)
  have "(\<exists>u v. ch # rs = u @ v \<and> list_all P u \<and> (u \<noteq> [] \<and> y = (rev u @ pre, v, c))) \<longleftrightarrow>
        (P ch \<and> (\<exists>u v. rs = u @ v \<and> list_all P u \<and> y = (rev u @ ch # pre, v, c)))"
    unfolding exists_split_Cons [of ch rs P "\<lambda>u v. u \<noteq> [] \<and> y = (rev u @ pre, v, c)"] by simp
  moreover have "y \<in> set (m (Plus a) (pre, rest, c)) \<longleftrightarrow>
        (P ch \<and> (\<exists>u v. rs = u @ v \<and> list_all P u \<and> y = (rev u @ ch # pre, v, c)))"
    unfolding Cons by (simp add: m_Plus_single [OF a] m_Star_single_mem [OF a])
  ultimately show ?thesis unfolding Cons by (simp add: conj_ac)
qed

lemma exec_from_Bol:
  "pre \<noteq> [] \<Longrightarrow> exec_from (Seq Bol X) pre rest = None"
  by (induction rest arbitrary: pre) (simp_all add: exec_from.simps [of _ _ "[]"] exec_from.simps [of _ _ "_ # _"])

lemma test_anchored: "test (Seq Bol X) v \<longleftrightarrow> m X ([], v, Map.empty) \<noteq> []"
proof (cases "m X ([], v, Map.empty)")
  case Nil
  then show ?thesis
    by (cases v) (simp_all add: test_def exec_def exec_from.simps [of _ "[]"] exec_from_Bol)
next
  case (Cons y ys)
  then show ?thesis by (simp add: test_def exec_def exec_from.simps [of _ "[]"])
qed

lemma ex_Seq_Plus:
  assumes a: "single a P"
  shows "m (Seq (Plus a) X) (pre, rest, c) \<noteq> [] \<longleftrightarrow>
     (\<exists>u v. rest = u @ v \<and> u \<noteq> [] \<and> list_all P u \<and> m X (rev u @ pre, v, c) \<noteq> [])"
proof -
  have "m (Seq (Plus a) X) (pre, rest, c) \<noteq> [] \<longleftrightarrow>
        (\<exists>y \<in> set (m (Plus a) (pre, rest, c)). m X y \<noteq> [])"
    by (simp add: concat_eq_Nil_conv)
  also have "\<dots> \<longleftrightarrow> (\<exists>y. y \<in> set (m (Plus a) (pre, rest, c)) \<and> m X y \<noteq> [])"
    by blast
  also have "\<dots> \<longleftrightarrow>
     (\<exists>u v. rest = u @ v \<and> u \<noteq> [] \<and> list_all P u \<and> m X (rev u @ pre, v, c) \<noteq> [])"
    unfolding m_Plus_single_mem [OF a] by blast
  finally show ?thesis .
qed

lemma ex_Seq_Lit:
  "m (Seq (Lit a) X) (pre, rest, c) \<noteq> [] \<longleftrightarrow>
     (\<exists>rs. rest = a # rs \<and> m X (a # pre, rs, c) \<noteq> [])"
  by (cases rest) auto

lemma ex_Eol: "m Eol (pre, rest, c) \<noteq> [] \<longleftrightarrow> rest = []"
  by simp

section \<open>Days, years and calendar dates\<close>

lemma div_step:
  fixes n k :: int
  assumes k: "1 < k"
  shows "(n + 1) div k = n div k + (if (n + 1) mod k = 0 then 1 else 0)"
proof -
  define q r where "q = n div k" and "r = n mod k"
  have n: "n = k * q + r" unfolding q_def r_def by simp
  have r: "0 \<le> r" "r < k" unfolding r_def using k by simp_all
  show ?thesis
  proof (cases "r + 1 = k")
    case True
    have "n + 1 = k * q + (r + 1)" using n by simp
    then have e: "n + 1 = k * (q + 1)" unfolding True by (simp add: algebra_simps)
    have "(n + 1) div k = q + 1" "(n + 1) mod k = 0"
      unfolding e using k by simp_all
    then show ?thesis unfolding q_def by simp
  next
    case False
    then have lt: "r + 1 < k" using r by simp
    have e: "n + 1 = k * q + (r + 1)" using n by simp
    have "(n + 1) div k = q + (r + 1) div k" "(n + 1) mod k = (r + 1) mod k"
      unfolding e using k by simp_all
    moreover have "(r + 1) div k = 0" "(r + 1) mod k = r + 1"
      using r lt by simp_all
    ultimately show ?thesis unfolding q_def using r by simp
  qed
qed

lemma mod_shift:
  fixes y c k :: int
  assumes "c mod k = 0"
  shows "(y - c) mod k = y mod k"
  using mod_diff_eq [of y k c] assms by simp


lemma leap_div_steps:
  fixes y :: int
  shows "(y - 1968) div 4 = (y - 1969) div 4 + (if y mod 4 = 0 then 1 else 0)"
    and "(y - 1900) div 100 = (y - 1901) div 100 + (if y mod 100 = 0 then 1 else 0)"
    and "(y - 1600) div 400 = (y - 1601) div 400 + (if y mod 400 = 0 then 1 else 0)"
proof -
  have s4: "(y - 1969 + 1) mod 4 = y mod 4" using mod_shift [of 1968 4 y] by simp
  have s100: "(y - 1901 + 1) mod 100 = y mod 100" using mod_shift [of 1900 100 y] by simp
  have s400: "(y - 1601 + 1) mod 400 = y mod 400" using mod_shift [of 1600 400 y] by simp
  have e: "y - 1969 + 1 = y - 1968" "y - 1901 + 1 = y - 1900" "y - 1601 + 1 = y - 1600"
    by simp_all
  show "(y - 1968) div 4 = (y - 1969) div 4 + (if y mod 4 = 0 then 1 else 0)"
    using div_step [of 4 "y - 1969"] unfolding s4 unfolding e by simp
  show "(y - 1900) div 100 = (y - 1901) div 100 + (if y mod 100 = 0 then 1 else 0)"
    using div_step [of 100 "y - 1901"] unfolding s100 unfolding e by simp
  show "(y - 1600) div 400 = (y - 1601) div 400 + (if y mod 400 = 0 then 1 else 0)"
    using div_step [of 400 "y - 1601"] unfolding s400 unfolding e by simp
qed

lemma DayFromYear_Suc: "DayFromYear (y + 1) = DayFromYear y + DaysInYear y"
proof -
  define a b c where "a = (y - 1969) div 4" and "b = (y - 1901) div 100"
    and "c = (y - 1601) div 400"
  have m: "y mod 100 = 0" if "y mod 400 = 0"
    using mod_mod_cancel [of 100 400 y] that by simp
  have n: "y mod 4 = 0" if "y mod 100 = 0"
    using mod_mod_cancel [of 4 100 y] that by simp
  have "DayFromYear (y + 1) =
      365 * (y - 1969) + (y - 1968) div 4 - (y - 1900) div 100 + (y - 1600) div 400"
    by (simp add: DayFromYear_def)
  also have "\<dots> = 365 * (y - 1969) + (a + (if y mod 4 = 0 then 1 else 0))
      - (b + (if y mod 100 = 0 then 1 else 0)) + (c + (if y mod 400 = 0 then 1 else 0))"
    unfolding leap_div_steps a_def b_def c_def ..
  also have "\<dots> = (365 * (y - 1970) + a - b + c) + DaysInYear y"
    using m n by (simp add: DaysInYear_def)
  finally show ?thesis unfolding a_def b_def c_def DayFromYear_def .
qed

lemma DaysInYear_bounds: "365 \<le> DaysInYear y" "DaysInYear y \<le> 366"
  by (simp_all add: DaysInYear_def)

lemma DayFromYear_1970: "DayFromYear 1970 = 0"
  by (simp add: DayFromYear_def)

lemma DayFromYear_up: "DayFromYear y + 365 * int n \<le> DayFromYear (y + int n)"
proof (induction n)
  case 0
  show ?case by simp
next
  case (Suc n)
  have "DayFromYear (y + int (Suc n)) = DayFromYear (y + int n) + DaysInYear (y + int n)"
    using DayFromYear_Suc [of "y + int n"] by (simp add: add.commute add.left_commute)
  then show ?case using Suc DaysInYear_bounds(1) [of "y + int n"] by simp
qed

lemma DayFromYear_up_le: "DayFromYear (y + int n) \<le> DayFromYear y + 366 * int n"
proof (induction n)
  case 0
  show ?case by simp
next
  case (Suc n)
  have "DayFromYear (y + int (Suc n)) = DayFromYear (y + int n) + DaysInYear (y + int n)"
    using DayFromYear_Suc [of "y + int n"] by (simp add: add.commute add.left_commute)
  then show ?case using Suc DaysInYear_bounds(2) [of "y + int n"] by simp
qed

lemma DayFromYear_strict_mono:
  assumes "y < z" shows "DayFromYear y < DayFromYear z"
proof -
  define n where "n = nat (z - y)"
  have z: "z = y + int n" and n: "0 < n" using assms by (simp_all add: n_def)
  have "DayFromYear y + 365 * int n \<le> DayFromYear z" unfolding z by (rule DayFromYear_up)
  then show ?thesis using n by simp
qed

lemma DayFromYear_mono: "y \<le> z \<Longrightarrow> DayFromYear y \<le> DayFromYear z"
  using DayFromYear_strict_mono [of y z] by (cases "y = z") simp_all

lemma year_up_correct:
  "DayFromYear y \<le> d \<Longrightarrow>
     DayFromYear (year_up d y) \<le> d \<and> d < DayFromYear (year_up d y + 1)"
proof (induction d y rule: year_up.induct)
  case (1 d y)
  show ?case
  proof (cases "DayFromYear (y + 1) \<le> d")
    case True
    then show ?thesis using "1.IH" by (subst (1 2) year_up.simps) simp
  next
    case False
    then show ?thesis using "1.prems" by (subst (1 2) year_up.simps) simp
  qed
qed

lemma mult_div_le_int:
  fixes d k :: int
  assumes "0 < k"
  shows "k * (d div k) \<le> d"
proof -
  have "k * (d div k) = d - d mod k" by (simp add: minus_mod_eq_mult_div)
  then show ?thesis using assms by simp
qed

lemma year_start:
  "DayFromYear (1970 + (if 0 \<le> d then d div 366 else d div 365)) \<le> d"
proof (cases "0 \<le> d")
  case True
  define n where "n = nat (d div 366)"
  have n: "d div 366 = int n" using True by (simp add: n_def)
  have "366 * (d div 366) \<le> d" by (rule mult_div_le_int) simp
  moreover have "DayFromYear (1970 + int n) \<le> 366 * int n"
    using DayFromYear_up_le [of 1970 n] by (simp add: DayFromYear_1970)
  ultimately show ?thesis using True unfolding n by simp
next
  case False
  define n where "n = nat (- (d div 365))"
  have "d div 365 < 0" using False by (simp add: div_neg_pos_less0)
  then have n: "d div 365 = - int n" by (simp add: n_def)
  have le: "365 * (d div 365) \<le> d" by (rule mult_div_le_int) simp
  have "DayFromYear (1970 - int n) + 365 * int n \<le> DayFromYear (1970 - int n + int n)"
    by (rule DayFromYear_up)
  then have "DayFromYear (1970 - int n) \<le> - (365 * int n)"
    by (simp add: DayFromYear_1970)
  then show ?thesis using False le unfolding n by simp
qed

lemma YearFromDay_correct:
  "DayFromYear (YearFromDay d) \<le> d \<and> d < DayFromYear (YearFromDay d + 1)"
  unfolding YearFromDay_def by (rule year_up_correct [OF year_start])

lemma YearFromDay_eq:
  assumes "DayFromYear y \<le> d" "d < DayFromYear (y + 1)"
  shows "YearFromDay d = y"
proof (rule ccontr)
  assume ne: "YearFromDay d \<noteq> y"
  let ?r = "YearFromDay d"
  have r: "DayFromYear ?r \<le> d" "d < DayFromYear (?r + 1)"
    using YearFromDay_correct by simp_all
  show False
  proof (cases "?r < y")
    case True
    then have "DayFromYear (?r + 1) \<le> DayFromYear y" by (intro DayFromYear_mono) simp
    then show False using r assms by simp
  next
    case False
    then have "y + 1 \<le> ?r" using ne by simp
    then have "DayFromYear (y + 1) \<le> DayFromYear ?r" by (rule DayFromYear_mono)
    then show False using r assms by simp
  qed
qed

lemma DayWithinYear_bounds:
  "0 \<le> DayWithinYear t" "DayWithinYear t < DaysInYear (YearFromTime t)"
  using YearFromDay_correct [of "Day t"] DayFromYear_Suc [of "YearFromTime t"]
  by (simp_all add: DayWithinYear_def YearFromTime_def)

lemma leap_flag:
  "InLeapYear t = (if DaysInYear (YearFromTime t) = 366 then 1 else 0)"
  "DaysInYear y = 365 + (if DaysInYear y = 366 then 1 else 0)"
  by (simp_all add: InLeapYear_def DaysInYear_def)

lemma civil_of_time:
  "0 \<le> MonthFromTime t \<and> MonthFromTime t \<le> 11 \<and>
   1 \<le> DateFromTime t \<and> DateFromTime t \<le> DaysInMonth (YearFromTime t) (MonthFromTime t) \<and>
   MakeDay (YearFromTime t) (MonthFromTime t) (DateFromTime t) = Day t"
proof -
  define w l y where "w = DayWithinYear t" and "l = InLeapYear t" and "y = YearFromTime t"
  have w: "0 \<le> w" "w < 365 + l"
    using DayWithinYear_bounds [of t] leap_flag(2) [of "YearFromTime t"]
    unfolding w_def l_def InLeapYear_def by simp_all
  have l: "l = (if DaysInYear y = 366 then 1 else 0)"
    unfolding l_def y_def InLeapYear_def ..
  have d: "Day t = DayFromYear y + w"
    unfolding w_def y_def DayWithinYear_def by simp
  have mo: "MonthFromTime t =
     (if w < 31 then 0 else if w < 59 + l then 1 else if w < 90 + l then 2
      else if w < 120 + l then 3 else if w < 151 + l then 4 else if w < 181 + l then 5
      else if w < 212 + l then 6 else if w < 243 + l then 7 else if w < 273 + l then 8
      else if w < 304 + l then 9 else if w < 334 + l then 10 else 11)"
    unfolding MonthFromTime_def w_def l_def Let_def ..
  have dt: "DateFromTime t =
     (let mo = MonthFromTime t in
      if mo = 0 then w + 1 else if mo = 1 then w - 30 else if mo = 2 then w - 58 - l
      else if mo = 3 then w - 89 - l else if mo = 4 then w - 119 - l
      else if mo = 5 then w - 150 - l else if mo = 6 then w - 180 - l
      else if mo = 7 then w - 211 - l else if mo = 8 then w - 242 - l
      else if mo = 9 then w - 272 - l else if mo = 10 then w - 303 - l else w - 333 - l)"
    unfolding DateFromTime_def w_def l_def Let_def ..
  have y: "YearFromTime t = y" by (simp add: y_def)
  show ?thesis
  proof (cases "DaysInYear y = 366")
    case True
    then have l1: "l = 1" by (simp add: l)
    show ?thesis unfolding y d dt mo l1 using w True unfolding l1
      by (simp add: Let_def MakeDay_def days_before_month_def DaysInMonth_def)
  next
    case False
    then have l0: "l = 0" by (simp add: l)
    show ?thesis unfolding y d dt mo l0 using w False unfolding l0
      by (simp add: Let_def MakeDay_def days_before_month_def DaysInMonth_def)
  qed
qed


lemma time_of_civil:
  assumes mo: "0 \<le> mo" "mo \<le> 11" and dt: "1 \<le> dt" "dt \<le> DaysInMonth y mo"
    and t: "Day t = MakeDay y mo dt"
  shows "YearFromTime t = y \<and> MonthFromTime t = mo \<and> DateFromTime t = dt"
proof -
  define l :: int where "l = (if DaysInYear y = 366 then 1 else 0)"
  define w where "w = days_before_month y mo + dt - 1"
  have cases: "mo = 0 \<or> mo = 1 \<or> mo = 2 \<or> mo = 3 \<or> mo = 4 \<or> mo = 5 \<or> mo = 6 \<or> mo = 7
      \<or> mo = 8 \<or> mo = 9 \<or> mo = 10 \<or> mo = 11"
    using mo by arith
  have diy: "DaysInYear y = 365 + l" unfolding l_def by (simp add: DaysInYear_def)
  have l01: "l = 0 \<or> l = 1" unfolding l_def by simp
  have dbm: "days_before_month y mo =
     (if mo = 0 then 0 else if mo = 1 then 31 else if mo = 2 then 59 + l
      else if mo = 3 then 90 + l else if mo = 4 then 120 + l else if mo = 5 then 151 + l
      else if mo = 6 then 181 + l else if mo = 7 then 212 + l else if mo = 8 then 243 + l
      else if mo = 9 then 273 + l else if mo = 10 then 304 + l else 334 + l)"
    unfolding days_before_month_def l_def Let_def ..
  have dim: "DaysInMonth y mo =
     (if mo = 1 then 28 + l
      else if mo = 3 \<or> mo = 5 \<or> mo = 8 \<or> mo = 10 then 30 else 31)"
    unfolding DaysInMonth_def l_def by simp
  have w: "0 \<le> w \<and> w < 365 + l"
    using cases l01 dt unfolding w_def dbm dim by (elim disjE; simp)
  have d: "Day t = DayFromYear y + w" unfolding t MakeDay_def w_def by simp
  have "DayFromYear y \<le> Day t" "Day t < DayFromYear (y + 1)"
    unfolding DayFromYear_Suc diy d using w by simp_all
  then have y: "YearFromTime t = y" unfolding YearFromTime_def by (rule YearFromDay_eq)
  have wy: "DayWithinYear t = w" unfolding DayWithinYear_def y d by simp
  have il: "InLeapYear t = l" unfolding InLeapYear_def y l_def ..
  have m: "MonthFromTime t = mo"
    unfolding MonthFromTime_def wy il Let_def
    using cases l01 dt unfolding w_def dbm dim by (elim disjE; simp)
  have "DateFromTime t = dt"
    unfolding DateFromTime_def wy il m Let_def
    using cases unfolding w_def dbm by (elim disjE; simp)
  then show ?thesis using y m by simp
qed

section \<open>Dates as text\<close>

lemma digit_of:
  assumes "k < 10"
  shows "digit (digit_of k)" "digit_value (digit_of k) = k"
proof -
  have "48 + k < 2 ^ LENGTH(16)" using assms by simp
  then have u: "unat (of_nat (48 + k) :: jschar) = 48 + k"
    by (rule of_nat_inverse [OF refl])
  show "digit (digit_of k)" "digit_value (digit_of k) = k"
    unfolding digit_of_def digit_def digit_value_def word_le_nat_alt u using assms by simp_all
qed

lemma digit_of_value:
  assumes "digit c"
  shows "digit_value c < 10" "digit_of (digit_value c) = c"
proof -
  have b: "48 \<le> unat c" "unat c \<le> 57"
    using assms unfolding digit_def word_le_nat_alt by simp_all
  then show "digit_value c < 10" unfolding digit_value_def by simp
  have "48 + digit_value c = unat c" using b unfolding digit_value_def by simp
  then show "digit_of (digit_value c) = c" unfolding digit_of_def by simp
qed

lemma digit_not_sign: "digit c \<Longrightarrow> c \<noteq> 0x2B \<and> c \<noteq> 0x2D \<and> c \<noteq> 0x54"
  unfolding digit_def by auto

lemma number_snoc: "number (s @ [c]) = 10 * number s + digit_value c"
  by (simp add: number_def)

lemma pad_digits: "list_all digit (pad w n)"
  by (induction w arbitrary: n) (simp_all add: digit_of)

lemma length_pad: "length (pad w n) = w"
  by (induction w arbitrary: n) simp_all

lemma number_pad: "number (pad w n) = n mod 10 ^ w"
proof (induction w arbitrary: n)
  case 0
  show ?case by (simp add: number_def)
next
  case (Suc w)
  have "number (pad (Suc w) n) = 10 * (n div 10 mod 10 ^ w) + n mod 10"
    by (simp add: number_snoc Suc digit_of)
  also have "\<dots> = n mod 10 ^ Suc w"
    by (simp add: mod_mult2_eq)
  finally show ?case .
qed

lemma pad_number: "list_all digit s \<Longrightarrow> pad (length s) (number s) = s"
proof (induction s rule: rev_induct)
  case Nil
  show ?case by simp
next
  case (snoc c s)
  then have c: "digit c" and s: "pad (length s) (number s) = s" by simp_all
  have "(10 * number s + digit_value c) div 10 = number s"
    "(10 * number s + digit_value c) mod 10 = digit_value c"
    using digit_of_value(1) [OF c] by simp_all
  then show ?case using s digit_of_value(2) [OF c] by (simp add: number_snoc)
qed

lemma pad_2_ex: "\<exists>a b. pad 2 n = [a, b]"
proof -
  have "\<exists>a b. pad (Suc (Suc 0)) n = [a, b]" by simp
  moreover have "(2 :: nat) = Suc (Suc 0)" by simp
  ultimately show ?thesis by (simp only:)
qed

lemma pad_4_ex: "\<exists>a b c d. pad 4 n = [a, b, c, d]"
proof -
  have "\<exists>a b c d. pad (Suc (Suc (Suc (Suc 0)))) n = [a, b, c, d]" by simp
  moreover have "(4 :: nat) = Suc (Suc (Suc (Suc 0)))" by simp
  ultimately show ?thesis by (simp only:)
qed

lemma pad_6_ex: "\<exists>a b c d e f. pad 6 n = [a, b, c, d, e, f]"
proof -
  have "\<exists>a b c d e f. pad (Suc (Suc (Suc (Suc (Suc (Suc 0)))))) n = [a, b, c, d, e, f]"
    by simp
  moreover have "(6 :: nat) = Suc (Suc (Suc (Suc (Suc (Suc 0)))))" by simp
  ultimately show ?thesis by (simp only:)
qed

lemma not_T: "list_all digit s \<Longrightarrow> list_all (\<lambda>c. c \<noteq> 0x54) s"
  using digit_not_sign by (induction s) simp_all

lemma date_text_no_T: "list_all (\<lambda>c. c \<noteq> 0x54) (date_text y mo dt)"
  unfolding date_text_def year_text_def
  by (simp add: not_T [OF pad_digits])

lemma split_toISOString:
  "split_first 0x54 (toISOString t) =
     date_text (YearFromTime t) (MonthFromTime t + 1) (DateFromTime t)"
proof -
  have "takeWhile (\<lambda>c. c \<noteq> 0x54) (date_text y mo dt @ 0x54 # r) = date_text y mo dt"
    for y mo dt r
    using date_text_no_T [of y mo dt]
    by (subst takeWhile_append2) (simp_all add: list_all_iff)
  then show ?thesis unfolding split_first_def toISOString_def by simp
qed

lemma take_drop_date_text:
  "takeWhile (\<lambda>c. c \<noteq> 0x54) (date_text y mo dt) = date_text y mo dt"
  "dropWhile (\<lambda>c. c \<noteq> 0x54) (date_text y mo dt) = []"
  using date_text_no_T [of y mo dt] by (simp_all add: list_all_iff)

lemma six_digits:
  assumes "n < 10 ^ 6"
  obtains a b c d e f where "pad 6 n = [a, b, c, d, e, f]"
    "list_all digit [a, b, c, d, e, f]" "number [a, b, c, d, e, f] = n"
proof -
  obtain a b c d e f where p: "pad 6 n = [a, b, c, d, e, f]" using pad_6_ex by blast
  have "list_all digit [a, b, c, d, e, f]" using pad_digits [of 6 n] unfolding p .
  moreover have "n mod 10 ^ 6 = n" using assms by (rule mod_less)
  then have "number [a, b, c, d, e, f] = n" using number_pad [of 6 n] unfolding p by simp
  ultimately show ?thesis using p that by blast
qed

lemma four_digits:
  assumes "n < 10 ^ 4"
  obtains a b c d where "pad 4 n = [a, b, c, d]"
    "list_all digit [a, b, c, d]" "number [a, b, c, d] = n"
proof -
  obtain a b c d where p: "pad 4 n = [a, b, c, d]" using pad_4_ex by blast
  have "list_all digit [a, b, c, d]" using pad_digits [of 4 n] unfolding p .
  moreover have "n mod 10 ^ 4 = n" using assms by (rule mod_less)
  then have "number [a, b, c, d] = n" using number_pad [of 4 n] unfolding p by simp
  ultimately show ?thesis using p that by blast
qed

lemma parse_year_text:
  assumes y: "- 999999 \<le> y" "y \<le> 999999"
    and r: "r = [h, m1, m2, i, d1, d2]"
  shows "parse_year (year_text y @ r) = Some (y, r)"
proof -
  consider "0 \<le> y" "y \<le> 9999" | "y < 0" | "9999 < y" by linarith
  then show ?thesis
  proof cases
    case 1
    have "nat y < 10 ^ 4" using 1 by (simp add: nat_less_iff)
    then obtain a b c d where p: "pad 4 (nat y) = [a, b, c, d]"
      and dg: "list_all digit [a, b, c, d]" and n: "number [a, b, c, d] = nat y"
      by (rule four_digits)
    have yt: "year_text y = [a, b, c, d]" using 1 by (simp add: year_text_def p)
    have "a \<noteq> 0x2B \<and> a \<noteq> 0x2D" using dg digit_not_sign [of a] by simp
    then show ?thesis unfolding yt r using dg n 1 by simp
  next
    case 2
    have "nat (- y) < 10 ^ 6" using 2 y by (simp add: nat_less_iff)
    then obtain a b c d e f where p: "pad 6 (nat (- y)) = [a, b, c, d, e, f]"
      and dg: "list_all digit [a, b, c, d, e, f]"
      and n: "number [a, b, c, d, e, f] = nat (- y)"
      by (rule six_digits)
    have yt: "year_text y = [0x2D, a, b, c, d, e, f]" using 2 by (simp add: year_text_def p)
    show ?thesis unfolding yt r using dg n 2 by simp
  next
    case 3
    have "nat y < 10 ^ 6" using 3 y by (simp add: nat_less_iff)
    then obtain a b c d e f where p: "pad 6 (nat y) = [a, b, c, d, e, f]"
      and dg: "list_all digit [a, b, c, d, e, f]"
      and n: "number [a, b, c, d, e, f] = nat y"
      by (rule six_digits)
    have yt: "year_text y = [0x2B, a, b, c, d, e, f]" using 3 by (simp add: year_text_def p)
    show ?thesis unfolding yt r using dg n 3 by simp
  qed
qed

lemma parse_month_day_text:
  assumes "0 \<le> mo" "mo < 100" "0 \<le> dt" "dt < 100"
  shows "parse_month_day ([0x2D] @ pad 2 (nat mo) @ [0x2D] @ pad 2 (nat dt)) = Some (mo, dt)"
proof -
  obtain m1 m2 where p: "pad 2 (nat mo) = [m1, m2]" using pad_2_ex by blast
  obtain d1 d2 where q: "pad 2 (nat dt) = [d1, d2]" using pad_2_ex by blast
  have dg: "list_all digit [m1, m2]" "list_all digit [d1, d2]"
    using pad_digits [of 2 "nat mo"] pad_digits [of 2 "nat dt"] unfolding p q .
  have "nat mo < 10 ^ 2" "nat dt < 10 ^ 2" using assms by (simp_all add: nat_less_iff)
  then have "nat mo mod 10 ^ 2 = nat mo" "nat dt mod 10 ^ 2 = nat dt" by simp_all
  then have "number [m1, m2] = nat mo" "number [d1, d2] = nat dt"
    using number_pad [of 2 "nat mo"] number_pad [of 2 "nat dt"] unfolding p q by simp_all
  then have "int (number [m1, m2]) = mo" "int (number [d1, d2]) = dt"
    using assms by simp_all
  then show ?thesis using dg unfolding p q by simp
qed

lemma DaysInMonth_le: "DaysInMonth y mo \<le> 31"
  by (simp add: DaysInMonth_def)

lemma parse_date_text:
  assumes y: "- 999999 \<le> y" "y \<le> 999999"
    and mo: "1 \<le> mo" "mo \<le> 12" and dt: "1 \<le> dt" "dt \<le> DaysInMonth y (mo - 1)"
  shows "parse_date_time (date_text y mo dt) = Some (msPerDay * MakeDay y (mo - 1) dt)"
proof -
  obtain m1 m2 where p: "pad 2 (nat mo) = [m1, m2]" using pad_2_ex by blast
  obtain d1 d2 where q: "pad 2 (nat dt) = [d1, d2]" using pad_2_ex by blast
  define r where "r = [0x2D, m1, m2, 0x2D, d1, d2]"
  have dt': "dt < 100" using dt DaysInMonth_le [of y "mo - 1"] by simp
  have t: "date_text y mo dt = year_text y @ r" unfolding date_text_def r_def p q by simp
  have 1: "parse_year (year_text y @ r) = Some (y, r)"
    by (rule parse_year_text [OF y r_def])
  have "parse_month_day ([0x2D] @ pad 2 (nat mo) @ [0x2D] @ pad 2 (nat dt)) = Some (mo, dt)"
    using mo dt dt' by (intro parse_month_day_text) simp_all
  then have 2: "parse_month_day r = Some (mo, dt)" unfolding r_def p q by simp
  show ?thesis
    unfolding parse_date_time_def take_drop_date_text unfolding t 1 using 2 mo dt by simp
qed

lemma Day_of_midnight: "Day (msPerDay * d) = d"
  by (simp add: Day_def msPerDay_def)

lemma normalizeDate_date_text:
  assumes y: "- 999999 \<le> y" "y \<le> 999999"
    and mo: "1 \<le> mo" "mo \<le> 12" and dt: "1 \<le> dt" "dt \<le> DaysInMonth y (mo - 1)"
    and clip: "\<bar>MakeDay y (mo - 1) dt\<bar> \<le> 100000000"
  shows "normalizeDate impl (date_text y mo dt) = Inr (date_text y mo dt)"
proof -
  define t where "t = msPerDay * MakeDay y (mo - 1) dt"
  have "\<bar>t\<bar> \<le> 8640000000000000" using clip unfolding t_def msPerDay_def by simp
  then have p: "Date_parse impl (date_text y mo dt) = Some t"
    unfolding Date_parse_def parse_date_text [OF y mo dt] t_def [symmetric]
    by (simp add: TimeClip_def)
  have "Day t = MakeDay y (mo - 1) dt" unfolding t_def by (rule Day_of_midnight)
  then have "YearFromTime t = y \<and> MonthFromTime t = mo - 1 \<and> DateFromTime t = dt"
    using mo dt by (intro time_of_civil) simp_all
  then show ?thesis unfolding normalizeDate_def p by (simp add: split_toISOString)
qed

lemma year_range:
  assumes "\<bar>d\<bar> \<le> 100000000"
  shows "- 271821 \<le> YearFromDay d" "YearFromDay d \<le> 275760"
proof -
  let ?y = "YearFromDay d"
  have c: "DayFromYear ?y \<le> d" "d < DayFromYear (?y + 1)"
    using YearFromDay_correct by simp_all
  have hi: "100000000 < DayFromYear 275761" by (simp add: DayFromYear_def)
  have lo: "DayFromYear (- 271821) < - 100000000" by (simp add: DayFromYear_def)
  show "?y \<le> 275760"
  proof (rule ccontr)
    assume "\<not> ?y \<le> 275760"
    then have "DayFromYear 275761 \<le> DayFromYear ?y" by (intro DayFromYear_mono) simp
    then show False using c hi assms by simp
  qed
  show "- 271821 \<le> ?y"
  proof (rule ccontr)
    assume "\<not> - 271821 \<le> ?y"
    then have "DayFromYear (?y + 1) \<le> DayFromYear (- 271821)" by (intro DayFromYear_mono) simp
    then show False using c lo assms by simp
  qed
qed

lemma Day_clip:
  assumes "\<bar>t\<bar> \<le> 8640000000000000"
  shows "\<bar>Day t\<bar> \<le> 100000000"
proof -
  have "- 8640000000000000 \<le> t" "t \<le> 8640000000000000" using assms by simp_all
  then have "(- 8640000000000000) div msPerDay \<le> t div msPerDay"
    "t div msPerDay \<le> 8640000000000000 div msPerDay"
    by (simp_all add: zdiv_mono1 msPerDay_def)
  then show ?thesis unfolding Day_def by (simp add: msPerDay_def)
qed

lemma normalizeDate_idempotent:
  assumes "normalizeDate impl x = Inr r"
  shows "normalizeDate impl r = Inr r"
proof -
  obtain t where p: "Date_parse impl x = Some t"
    and r: "r = date_text (YearFromTime t) (MonthFromTime t + 1) (DateFromTime t)"
    using assms unfolding normalizeDate_def
    by (auto simp: split_toISOString split: option.splits)
  have "\<bar>t\<bar> \<le> 8640000000000000"
    using p unfolding Date_parse_def TimeClip_def by (auto split: option.splits if_splits)
  then have d: "\<bar>Day t\<bar> \<le> 100000000" by (rule Day_clip)
  have yr: "- 271821 \<le> YearFromTime t" "YearFromTime t \<le> 275760"
    unfolding YearFromTime_def using year_range [OF d] by simp_all
  note c = civil_of_time [of t]
  show ?thesis unfolding r
  proof (rule normalizeDate_date_text)
    show "\<bar>MakeDay (YearFromTime t) (MonthFromTime t + 1 - 1) (DateFromTime t)\<bar> \<le> 100000000"
      using c d by simp
  qed (use yr c in simp_all)
qed

lemma number_bound: "list_all digit s \<Longrightarrow> number s < 10 ^ length s"
proof -
  assume "list_all digit s"
  then have "number s = number s mod 10 ^ length s"
    using number_pad [of "length s" "number s"] by (simp add: pad_number)
  then show ?thesis by (metis mod_less_divisor zero_less_numeral zero_less_power)
qed

lemma canonical_date_text:
  assumes "canonical_date s"
  obtains y mo dt where "s = date_text y mo dt" "0 \<le> y" "y \<le> 9999"
    "1 \<le> mo" "mo \<le> 12" "1 \<le> dt" "dt \<le> DaysInMonth y (mo - 1)"
proof -
  from assms obtain y1 y2 y3 y4 h m1 m2 i d1 d2
    where s: "s = [y1, y2, y3, y4, h, m1, m2, i, d1, d2]"
      and dy: "list_all digit [y1, y2, y3, y4]" and dm: "list_all digit [m1, m2]"
      and dd: "list_all digit [d1, d2]" and h: "h = 0x2D" "i = 0x2D"
      and mo: "1 \<le> number [m1, m2]" "number [m1, m2] \<le> 12"
      and dt: "1 \<le> number [d1, d2]"
        "int (number [d1, d2])
           \<le> DaysInMonth (int (number [y1, y2, y3, y4])) (int (number [m1, m2]) - 1)"
    by (cases s rule: canonical_date.cases) simp_all
  define y where "y = int (number [y1, y2, y3, y4])"
  have yb: "number [y1, y2, y3, y4] < 10 ^ 4" using number_bound [OF dy] by simp
  then have y: "0 \<le> y" "y \<le> 9999" unfolding y_def by simp_all
  have l4: "length [y1, y2, y3, y4] = 4" and lm: "length [m1, m2] = 2"
    and ld: "length [d1, d2] = 2" by simp_all
  note py = pad_number [OF dy, unfolded l4] and pm = pad_number [OF dm, unfolded lm]
    and pd = pad_number [OF dd, unfolded ld]
  have "s = date_text y (int (number [m1, m2])) (int (number [d1, d2]))"
    unfolding date_text_def year_text_def y_def s h using yb by (simp add: py pm pd)
  then show ?thesis using y mo dt that [of y "int (number [m1, m2])" "int (number [d1, d2])"]
    unfolding y_def by simp
qed

lemma MakeDay_bound:
  assumes y: "0 \<le> y" "y \<le> 9999" and mo: "0 \<le> mo" "mo \<le> 11"
    and dt: "1 \<le> dt" "dt \<le> DaysInMonth y mo"
  shows "\<bar>MakeDay y mo dt\<bar> \<le> 100000000"
proof -
  have "DayFromYear 0 \<le> DayFromYear y" "DayFromYear y \<le> DayFromYear 9999"
    using y by (simp_all add: DayFromYear_mono)
  moreover have "DayFromYear 0 = - 719528" "DayFromYear 9999 = 2932532"
    by (simp_all add: DayFromYear_def)
  moreover have "0 \<le> days_before_month y mo" "days_before_month y mo \<le> 335"
    by (simp_all add: days_before_month_def)
  moreover have "dt \<le> 31" using dt DaysInMonth_le [of y mo] by simp
  ultimately show ?thesis using dt unfolding MakeDay_def by simp
qed

lemma normalizeDate_canonical:
  assumes "canonical_date s"
  shows "normalizeDate impl s = Inr s"
proof -
  from assms obtain y mo dt where s: "s = date_text y mo dt" and y: "0 \<le> y" "y \<le> 9999"
    and mo: "1 \<le> mo" "mo \<le> 12" and dt: "1 \<le> dt" "dt \<le> DaysInMonth y (mo - 1)"
    by (rule canonical_date_text)
  have "\<bar>MakeDay y (mo - 1) dt\<bar> \<le> 100000000"
    using y mo dt by (intro MakeDay_bound) simp_all
  then show ?thesis unfolding s using y mo dt by (intro normalizeDate_date_text) simp_all
qed

section \<open>The Event model: times\<close>

lemma exec_anchored:
  "exec (Seq Bol X) v =
     (case m X ([], v, Map.empty) of [] \<Rightarrow> None | y # ys \<Rightarrow> Some ([], y))"
proof (cases "m X ([], v, Map.empty)")
  case Nil
  then show ?thesis
    by (cases v) (simp_all add: exec_def exec_from.simps [of _ "[]"] exec_from_Bol)
next
  case (Cons y ys)
  then show ?thesis by (simp add: exec_def exec_from.simps [of _ "[]"])
qed

lemma hour_digits:
  "two_digits 23 a b \<longleftrightarrow>
     ((a = 0x30 \<or> a = 0x31) \<and> 0x30 \<le> b \<and> b \<le> 0x39) \<or> (a = 0x32 \<and> 0x30 \<le> b \<and> b \<le> 0x33)"
  unfolding two_digits_def digit_def digit_value_def word_le_nat_alt word_unat_eq_iff
  by (simp add: ) arith

lemma minute_digits:
  "two_digits 59 a b \<longleftrightarrow> (0x30 \<le> a \<and> a \<le> 0x35) \<and> 0x30 \<le> b \<and> b \<le> 0x39"
  unfolding two_digits_def digit_def digit_value_def word_le_nat_alt word_unat_eq_iff
  by (simp add: ) arith


lemma in_class_simps:
  "in_class False [Chr 0x30, Chr 0x31] c \<longleftrightarrow> c = 0x30 \<or> c = 0x31"
  "in_class False [Digit] c \<longleftrightarrow> 0x30 \<le> c \<and> c \<le> 0x39"
  "in_class False [Rng 0x30 0x33] c \<longleftrightarrow> 0x30 \<le> c \<and> c \<le> 0x33"
  "in_class False [Rng 0x30 0x35] c \<longleftrightarrow> 0x30 \<le> c \<and> c \<le> 0x35"
  by (auto simp: in_class_def)

lemma normalizeTime_trimmed:
  "(case exec TIME u of
        None \<Rightarrow> Inl (Error ''Invalid event time. Expected 24h format HH:MM or HH:MM:SS.'')
      | Some (before, y) \<Rightarrow>
          Inr (template (snd (snd y) 1) @ js '':'' @ template (snd (snd y) 2))) =
   (if time_form u then Inr (take 5 u)
    else Inl (Error ''Invalid event time. Expected 24h format HH:MM or HH:MM:SS.''))"
  unfolding TIME_def exec_anchored
  apply (cases u rule: time_form.cases)
  apply (simp_all add: in_class_simps hour_digits minute_digits capture_def template_def
      js_def ahead_def)
  done


text \<open>
  Claim C4, as the code has it: the input is trimmed first. \<open>normalizeTime\<close> succeeds exactly
  when the trimmed input has the form \<^verbatim>\<open>HH:MM\<close> or \<^verbatim>\<open>HH:MM:SS\<close> with the hour in 00 to 23
  and the minute and second in 00 to 59; it then returns the first five code units of the
  trimmed input, the \<^verbatim>\<open>HH:MM\<close> part, and it throws the error for every other input.
  \<^verbatim>\<open>9:05:30\<close> is rejected and \<^verbatim>\<open>09:05:30\<close> gives \<^verbatim>\<open>09:05\<close>.
\<close>

theorem normalizeTime_accepts_trimmed_form:
  "normalizeTime t =
     (if time_form (trim t) then Inr (take 5 (trim t))
      else Inl (Error ''Invalid event time. Expected 24h format HH:MM or HH:MM:SS.'')) \<and>
   normalizeTime (js ''9:05:30'') =
     Inl (Error ''Invalid event time. Expected 24h format HH:MM or HH:MM:SS.'') \<and>
   normalizeTime (js ''09:05:30'') = Inr (js ''09:05'')"
proof -
  have g: "normalizeTime t =
     (if time_form (trim t) then Inr (take 5 (trim t))
      else Inl (Error ''Invalid event time. Expected 24h format HH:MM or HH:MM:SS.''))" for t
    unfolding normalizeTime_def by (rule normalizeTime_trimmed)
  have 1: "trim (js ''9:05:30'') = js ''9:05:30''" "trim (js ''09:05:30'') = js ''09:05:30''"
    by (simp_all add: js_def trim_def isWhiteSpace_def)
  have 2: "\<not> time_form (js ''9:05:30'')" "time_form (js ''09:05:30'')"
    by (simp_all add: js_def two_digits_def digit_def digit_value_def)
  show ?thesis unfolding g [of "js ''9:05:30''"] g [of "js ''09:05:30''"] 1
    using 2 g [of t] by (simp add: js_def)
qed

theorem normalizeTime_accepts_trimmed_form_witness:
  "normalizeTime (js ''23:59'') = Inr (js ''23:59'') \<and>
   normalizeTime (js ''24:00'') =
     Inl (Error ''Invalid event time. Expected 24h format HH:MM or HH:MM:SS.'')"
  using normalizeTime_accepts_trimmed_form [of "js ''23:59''"]
    normalizeTime_accepts_trimmed_form [of "js ''24:00''"]
  by (simp add: js_def trim_def isWhiteSpace_def two_digits_def digit_def digit_value_def)

text \<open>
  Claim C4 as stated fails: an input with white space around a well-formed time does not
  have the form \<^verbatim>\<open>HH:MM\<close>, and \<open>normalizeTime\<close> accepts it.
\<close>

theorem normalizeTime_padded_counterexample:
  "\<not> time_form (js '' 09:05'') \<and>
   normalizeTime (js '' 09:05'') = (Inr (js ''09:05''))"
  by (simp add: js_def normalizeTime_def exec_def exec_from.simps TIME_def trim_def
      isWhiteSpace_def in_class_def capture_def template_def ahead_def)

section \<open>The Event model: slugs\<close>

lemma replace_from_Plus_single:
  assumes a: "single a P"
  shows "replace_from (Plus a) [0x2D] pre rest = hyphenate_runs P rest"
  using a
proof (induction P rest arbitrary: pre rule: hyphenate_runs.induct)
  case (1 P)
  show ?case
    by (simp add: replace_from.simps [of _ _ _ "[]"] m_Plus_single [OF "1.prems"])
next
  case (2 P c cs)
  note a = "2.prems"
  show ?case
  proof (cases "P c")
    case True
    obtain ys where ys: "m (Star a) (c # pre, cs, Map.empty) =
        (rev (takeWhile P cs) @ c # pre, dropWhile P cs, Map.empty) # ys"
      using m_Star_single_hd [OF a] by blast
    have "length (dropWhile P cs) < Suc (length cs)"
      by (simp add: length_dropWhile_le le_imp_less_Suc)
    then have "replace_from (Plus a) [0x2D] pre (c # cs) =
        0x2D # replace_from (Plus a) [0x2D] (rev (takeWhile P cs) @ c # pre) (dropWhile P cs)"
      using True by (simp add: replace_from.simps [of _ _ _ "c # cs"] m_Plus_single [OF a] ys ahead_def)
    then show ?thesis using True "2.IH"(1) [OF True a] by simp
  next
    case False
    then have "replace_from (Plus a) [0x2D] pre (c # cs) =
        c # replace_from (Plus a) [0x2D] (c # pre) cs"
      by (simp add: replace_from.simps [of _ _ _ "c # cs"] m_Plus_single [OF a])
    then show ?thesis using False "2.IH"(2) [OF False a] by simp
  qed
qed


lemma concat_map_Eol: "concat (map (m Eol) ys) = filter (\<lambda>y. fst (snd y) = []) ys"
  by (induction ys) simp_all

lemma m_EDGE_HYPHENS:
  "m EDGE_HYPHENS x =
     (if fst x = [] then m (Plus (Lit 0x2D)) x else [])
       @ filter (\<lambda>y. fst (snd y) = []) (m (Plus (Lit 0x2D)) x)"
  by (simp add: EDGE_HYPHENS_def concat_map_Eol)

lemma strip_trailing_Cons:
  "rev (dropWhile P (rev (c # cs))) =
     (if list_all P (c # cs) then [] else c # rev (dropWhile P (rev cs)))"
proof (cases "list_all P cs")
  case True
  then have "dropWhile P (rev cs @ [c]) = dropWhile P [c]"
    by (intro dropWhile_append2) (simp add: list_all_iff)
  moreover have "dropWhile P (rev cs) = []" using True by (simp add: list_all_iff)
  ultimately show ?thesis using True by simp
next
  case False
  then obtain x where "x \<in> set (rev cs)" "\<not> P x" by (auto simp: list_all_iff)
  then have "dropWhile P (rev cs @ [c]) = dropWhile P (rev cs) @ [c]"
    by (rule dropWhile_append1)
  then show ?thesis using False by simp
qed

lemma replace_from_EDGE_end: "replace_from EDGE_HYPHENS [] pre [] = []"
  by (simp add: replace_from.simps [of _ _ _ "[]"] m_EDGE_HYPHENS m_Plus_single [OF single_Lit])

lemma m_EDGE_no_hyphen:
  "ch \<noteq> 0x2D \<Longrightarrow> m EDGE_HYPHENS (pre, ch # rs, c) = []"
  by (simp add: m_EDGE_HYPHENS m_Plus_single [OF single_Lit])

lemma m_EDGE_leading:
  "\<exists>zs. m EDGE_HYPHENS ([], 0x2D # rs, c) =
     (rev (takeWhile (\<lambda>c. c = 0x2D) rs) @ [0x2D], dropWhile (\<lambda>c. c = 0x2D) rs, c) # zs"
proof -
  obtain ys where ys: "m (Star (Lit 0x2D)) ([0x2D], rs, c) =
      (rev (takeWhile (\<lambda>c. c = 0x2D) rs) @ [0x2D], dropWhile (\<lambda>c. c = 0x2D) rs, c) # ys"
    using m_Star_single_hd [OF single_Lit] by blast
  show ?thesis by (simp add: m_EDGE_HYPHENS m_Plus_single [OF single_Lit] ys)
qed

lemma m_EDGE_inner_all:
  assumes "pre \<noteq> []" "list_all (\<lambda>c. c = 0x2D) rs"
  shows "\<exists>zs. m EDGE_HYPHENS (pre, 0x2D # rs, c) = (rev rs @ 0x2D # pre, [], c) # zs"
proof -
  obtain ys where ys: "m (Star (Lit 0x2D)) (0x2D # pre, rs, c) =
      (rev (takeWhile (\<lambda>c. c = 0x2D) rs) @ 0x2D # pre, dropWhile (\<lambda>c. c = 0x2D) rs, c) # ys"
    using m_Star_single_hd [OF single_Lit] by blast
  have "dropWhile (\<lambda>c. c = 0x2D) rs = []" "takeWhile (\<lambda>c. c = 0x2D) rs = rs"
    using assms(2) by (simp_all add: list_all_iff)
  then show ?thesis using assms(1)
    by (simp add: m_EDGE_HYPHENS m_Plus_single [OF single_Lit] ys)
qed

lemma m_EDGE_inner_not_all:
  assumes "pre \<noteq> []" "\<not> list_all (\<lambda>c. c = 0x2D) rs"
  shows "m EDGE_HYPHENS (pre, 0x2D # rs, c) = []"
proof -
  have "fst (snd y) \<noteq> []" if "y \<in> set (m (Star (Lit 0x2D)) (0x2D # pre, rs, c))" for y
  proof -
    from that obtain u v where "rs = u @ v" "list_all (\<lambda>c. c = 0x2D) u"
        "y = (rev u @ 0x2D # pre, v, c)"
      unfolding m_Star_single_mem [OF single_Lit] by blast
    then show ?thesis using assms(2) by auto
  qed
  then have "filter (\<lambda>y. fst (snd y) = []) (m (Star (Lit 0x2D)) (0x2D # pre, rs, c)) = []"
    by (simp add: filter_empty_conv)
  then show ?thesis using assms(1)
    by (simp add: m_EDGE_HYPHENS m_Plus_single [OF single_Lit])
qed

lemma replace_from_EDGE_trailing:
  "pre \<noteq> [] \<Longrightarrow>
     replace_from EDGE_HYPHENS [] pre rest = rev (dropWhile (\<lambda>c. c = 0x2D) (rev rest))"
proof (induction rest arbitrary: pre)
  case Nil
  show ?case by (simp add: replace_from_EDGE_end)
next
  case (Cons ch rs)
  let ?H = "\<lambda>c::jschar. c = 0x2D"
  have skip: "replace_from EDGE_HYPHENS [] pre (ch # rs) = ch # rev (dropWhile ?H (rev rs))"
    if "m EDGE_HYPHENS (pre, ch # rs, Map.empty) = []"
    using that Cons.IH [of "ch # pre"] by (simp add: replace_from.simps [of _ _ _ "ch # rs"])
  show ?case
  proof (cases "ch = 0x2D")
    case False
    then show ?thesis using skip [OF m_EDGE_no_hyphen [OF False]]
      by (simp only: strip_trailing_Cons) simp
  next
    case True
    show ?thesis
    proof (cases "list_all ?H rs")
      case all: True
      obtain zs where "m EDGE_HYPHENS (pre, ch # rs, Map.empty) =
          (rev rs @ 0x2D # pre, [], Map.empty) # zs"
        using m_EDGE_inner_all [OF Cons.prems all] unfolding True by blast
      then have "replace_from EDGE_HYPHENS [] pre (ch # rs) = []"
        by (simp add: replace_from.simps [of _ _ _ "ch # rs"] ahead_def replace_from_EDGE_end)
      then show ?thesis using True all by (simp only: strip_trailing_Cons) simp
    next
      case notall: False
      have "m EDGE_HYPHENS (pre, ch # rs, Map.empty) = []"
        using m_EDGE_inner_not_all [OF Cons.prems notall] unfolding True .
      then show ?thesis using skip notall by (simp only: strip_trailing_Cons) simp
    qed
  qed
qed

lemma replace_EDGE_HYPHENS: "replace EDGE_HYPHENS [] s = strip_hyphens s"
proof (cases s)
  case Nil
  then show ?thesis by (simp add: replace_def strip_hyphens_def replace_from_EDGE_end)
next
  case (Cons ch rs)
  let ?H = "\<lambda>c::jschar. c = 0x2D"
  show ?thesis
  proof (cases "ch = 0x2D")
    case False
    have "replace_from EDGE_HYPHENS [] [] (ch # rs) =
        ch # replace_from EDGE_HYPHENS [] [ch] rs"
      by (simp add: replace_from.simps [of _ _ _ "ch # rs"] m_EDGE_no_hyphen [OF False])
    then have "replace EDGE_HYPHENS [] s = ch # rev (dropWhile ?H (rev rs))"
      unfolding Cons replace_def by (simp add: replace_from_EDGE_trailing)
    moreover have "strip_hyphens s = ch # rev (dropWhile ?H (rev rs))"
      unfolding Cons strip_hyphens_def using False
      by (simp add: strip_trailing_Cons del: rev.simps)
    ultimately show ?thesis by simp
  next
    case True
    obtain zs where zs: "m EDGE_HYPHENS ([], 0x2D # rs, Map.empty) =
        (rev (takeWhile ?H rs) @ [0x2D], dropWhile ?H rs, Map.empty) # zs"
      using m_EDGE_leading by blast
    have "length (dropWhile ?H rs) < Suc (length rs)"
      by (simp add: length_dropWhile_le le_imp_less_Suc)
    then have "replace_from EDGE_HYPHENS [] [] (0x2D # rs) =
        replace_from EDGE_HYPHENS [] (rev (takeWhile ?H rs) @ [0x2D]) (dropWhile ?H rs)"
      by (simp add: replace_from.simps [of _ _ _ "0x2D # rs"] zs ahead_def)
    then show ?thesis unfolding Cons True replace_def strip_hyphens_def
      by (simp add: replace_from_EDGE_trailing)
  qed
qed

lemma generateSlug_runs:
  "generateSlug uni t =
     strip_hyphens (hyphenate_runs (in_class True [Rng 0x61 0x7A, Rng 0x30 0x39])
       (trim (toLowerCase uni t)))"
proof -
  have "js ''-'' = [0x2D]" by (simp add: js_def)
  then show ?thesis
    unfolding generateSlug_def replace_EDGE_HYPHENS NON_ALNUM_def
    by (simp add: replace_def replace_from_Plus_single [OF single_Class])
qed

lemma hyphenate_runs_cong:
  "\<forall>c \<in> set s. P c = Q c \<Longrightarrow> hyphenate_runs P s = hyphenate_runs Q s"
proof (induction P s rule: hyphenate_runs.induct)
  case (1 P)
  show ?case by simp
next
  case (2 P c cs)
  have c: "P c = Q c" and cs: "\<And>x. x \<in> set cs \<Longrightarrow> P x = Q x"
    using "2.prems" by simp_all
  have dw: "dropWhile P cs = dropWhile Q cs"
    by (rule dropWhile_cong) (simp_all add: cs)
  show ?case
  proof (cases "P c")
    case True
    have "\<forall>x \<in> set (dropWhile P cs). P x = Q x"
      using cs set_dropWhileD by fast
    then have "hyphenate_runs P (dropWhile P cs) = hyphenate_runs Q (dropWhile P cs)"
      by (rule "2.IH"(1) [OF True])
    moreover have "hyphenate_runs P (c # cs) = 0x2D # hyphenate_runs P (dropWhile P cs)"
      using True by simp
    moreover have "hyphenate_runs Q (c # cs) = 0x2D # hyphenate_runs Q (dropWhile Q cs)"
      using True c by simp
    ultimately show ?thesis by (simp only: dw)
  next
    case False
    have "\<forall>x \<in> set cs. P x = Q x" using cs by blast
    then have "hyphenate_runs P cs = hyphenate_runs Q cs"
      by (rule "2.IH"(2) [OF False])
    moreover have "hyphenate_runs P (c # cs) = c # hyphenate_runs P cs"
      using False by simp
    moreover have "hyphenate_runs Q (c # cs) = c # hyphenate_runs Q cs"
      using False c by simp
    ultimately show ?thesis by (simp only:)
  qed
qed

lemma set_trim: "set (trim s) \<subseteq> set s"
proof -
  have "set (trim s) \<subseteq> set (dropWhile isWhiteSpace s)"
    unfolding trim_def using set_dropWhileD [of _ isWhiteSpace "rev (dropWhile isWhiteSpace s)"]
    by auto
  then show ?thesis using set_dropWhileD by fastforce
qed

lemma non_alnum_class:
  "\<not> upper c \<Longrightarrow>
     in_class True [Rng 0x61 0x7A, Rng 0x30 0x39] c = (\<not> alphanumeric c)"
  by (auto simp: in_class_def alphanumeric_def upper_def)

text \<open>Lowercasing a title of ASCII code units leaves no ASCII capital letter.\<close>

lemma lowerASCII_not_upper: "\<not> upper (lowerASCII c)"
proof (cases "0x41 \<le> c \<and> c \<le> 0x5A")
  case True
  then have b: "65 \<le> unat c" "unat c \<le> 90" by (simp_all add: word_le_nat_alt)
  then have "unat c + unat (0x20 :: jschar) < 2 ^ LENGTH(16)" by simp
  then have "unat (c + 0x20) = unat c + unat (0x20 :: jschar)" by (simp only: unat_add_lem)
  then have "unat (c + 0x20) = unat c + 32" by simp
  then show ?thesis using True b by (simp add: lowerASCII_def upper_def word_le_nat_alt)
next
  case False
  then show ?thesis by (auto simp: lowerASCII_def upper_def)
qed

lemma toLowerCase_ascii:
  "list_all (\<lambda>c. c < 0x80) t \<Longrightarrow> list_all (\<lambda>c. \<not> upper c) (toLowerCase uni t)"
  by (simp add: toLowerCase_def list_all_iff lowerASCII_not_upper)

text \<open>
  Claim C5. \<open>generateSlug\<close>, computed by the two global replacements of the source, is the
  slug that the specification describes, provided that lowercasing leaves no ASCII capital
  letter in the title. That is what \<^verbatim>\<open>toLowerCase\<close> guarantees; for a title of ASCII code
  units it is \<open>toLowerCase_ascii\<close>, and beyond ASCII it is a property of the case mapping
  of the runtime.
\<close>

theorem generateSlug_refines_spec:
  assumes "list_all (\<lambda>c. \<not> upper c) (toLowerCase uni t)"
  shows "generateSlug uni t = generateSlug_spec uni t"
proof -
  have "\<forall>c \<in> set (trim (toLowerCase uni t)).
          in_class True [Rng 0x61 0x7A, Rng 0x30 0x39] c = (\<not> alphanumeric c)"
    using assms set_trim [of "toLowerCase uni t"] non_alnum_class
    by (auto simp: list_all_iff)
  then show ?thesis
    unfolding generateSlug_runs generateSlug_spec_def
    by (simp only: hyphenate_runs_cong [of _ _ "\<lambda>c. \<not> alphanumeric c"])
qed

theorem generateSlug_refines_spec_witness:
  "list_all (\<lambda>c. \<not> upper c) (toLowerCase id (js '' Hello, World! '')) \<and>
   generateSlug id (js '' Hello, World! '') = generateSlug_spec id (js '' Hello, World! '') \<and>
   generateSlug_spec id (js '' Hello, World! '') = js ''hello-world''"
proof -
  have 1: "list_all (\<lambda>c. \<not> upper c) (toLowerCase id (js '' Hello, World! ''))"
    by (simp add: js_def toLowerCase_def lowerASCII_def upper_def)
  have 2: "generateSlug_spec id (js '' Hello, World! '') = js ''hello-world''"
    by (simp add: generateSlug_spec_def js_def toLowerCase_def lowerASCII_def trim_def
        isWhiteSpace_def alphanumeric_def strip_hyphens_def)
  show ?thesis using generateSlug_refines_spec [OF 1] 1 2 by simp
qed

lemma NA_hyphen: "NA 0x2D"
  by (simp add: in_class_def)

lemma not_NA_slug_char: "\<not> NA c \<Longrightarrow> slug_char c \<and> c \<noteq> 0x2D"
  by (auto simp: in_class_def slug_char_def)

lemma hyphenate_runs_chars: "list_all slug_char (hyphenate_runs NA s)"
proof (induction "NA" s rule: hyphenate_runs.induct)
  case 1
  show ?case by simp
next
  case (2 c cs)
  show ?case
  proof (cases "NA c")
    case True
    then show ?thesis using "2.hyps"(1) by (simp add: slug_char_def)
  next
    case False
    then show ?thesis using "2.hyps"(2) not_NA_slug_char [of c] by simp
  qed
qed

lemma hyphenate_runs_head:
  "k = [] \<or> \<not> NA (hd k) \<Longrightarrow> \<not> starts_with_hyphen (hyphenate_runs NA k)"
  using not_NA_slug_char [of "hd k"] by (cases k) (auto simp: starts_with_hyphen_def)

lemma hyphenate_runs_start:
  "\<not> starts_with_hyphen (hyphenate_runs NA (dropWhile NA cs))"
  using hd_dropWhile [of NA cs] by (intro hyphenate_runs_head) blast

lemma double_hyphen_Cons:
  "double_hyphen (c # s) \<longleftrightarrow> (c = 0x2D \<and> starts_with_hyphen s) \<or> double_hyphen s"
  by (cases s) (simp_all add: starts_with_hyphen_def)

lemma hyphenate_runs_no_double: "\<not> double_hyphen (hyphenate_runs NA s)"
proof (induction "NA" s rule: hyphenate_runs.induct)
  case 1
  show ?case by simp
next
  case (2 c cs)
  show ?case
  proof (cases "NA c")
    case True
    then show ?thesis using "2.hyps"(1) hyphenate_runs_start [of cs]
      by (simp add: double_hyphen_Cons)
  next
    case False
    then show ?thesis using "2.hyps"(2) not_NA_slug_char [of c]
      by (simp add: double_hyphen_Cons)
  qed
qed

lemma double_hyphen_append1: "double_hyphen s \<Longrightarrow> double_hyphen (s @ t)"
  by (induction s rule: double_hyphen.induct) auto

lemma double_hyphen_append2: "double_hyphen t \<Longrightarrow> double_hyphen (s @ t)"
  by (induction s) (simp_all add: double_hyphen_Cons)

lemma rev_strip:
  "k = rev (dropWhile P (rev k)) @ rev (takeWhile P (rev k))"
proof -
  have "k = rev (takeWhile P (rev k) @ dropWhile P (rev k))"
    by (simp only: takeWhile_dropWhile_id rev_rev_ident)
  then show ?thesis by (simp only: rev_append)
qed

lemma strip_hyphens_decomp:
  "\<exists>a b. s = a @ strip_hyphens s @ b"
proof -
  let ?H = "\<lambda>c::jschar. c = 0x2D"
  let ?k = "dropWhile ?H s"
  have "s = takeWhile ?H s @ ?k" by simp
  also have "?k = strip_hyphens s @ rev (takeWhile ?H (rev ?k))"
    unfolding strip_hyphens_def by (rule rev_strip)
  finally show ?thesis by blast
qed

lemma dropWhile_hyphen_start:
  "\<not> starts_with_hyphen (dropWhile (\<lambda>c. c = 0x2D) xs)"
  by (induction xs) (simp_all add: starts_with_hyphen_def)

lemma starts_with_hyphen_append:
  "xs \<noteq> [] \<Longrightarrow> starts_with_hyphen (xs @ ys) = starts_with_hyphen xs"
  by (cases xs) (simp_all add: starts_with_hyphen_def)

lemma strip_hyphens_ends:
  "\<not> starts_with_hyphen (strip_hyphens s)" "\<not> ends_with_hyphen (strip_hyphens s)"
proof -
  let ?H = "\<lambda>c::jschar. c = 0x2D"
  let ?k = "dropWhile ?H s"
  show "\<not> ends_with_hyphen (strip_hyphens s)"
    by (simp add: ends_with_hyphen_def strip_hyphens_def dropWhile_hyphen_start)
  show "\<not> starts_with_hyphen (strip_hyphens s)"
  proof (cases "strip_hyphens s = []")
    case True
    then show ?thesis by (simp add: starts_with_hyphen_def)
  next
    case False
    have "?k = strip_hyphens s @ rev (takeWhile ?H (rev ?k))"
      unfolding strip_hyphens_def by (rule rev_strip)
    then have "starts_with_hyphen ?k = starts_with_hyphen (strip_hyphens s)"
      using starts_with_hyphen_append [OF False] by metis
    then show ?thesis using dropWhile_hyphen_start [of s] by simp
  qed
qed

text \<open>
  Claim C6. For every title, valid or not, and whatever the case mapping of the runtime
  does outside ASCII, the slug has only the code units \<^verbatim>\<open>a-z\<close>, \<^verbatim>\<open>0-9\<close> and the hyphen,
  neither starts nor ends with a hyphen, and has no two hyphens in a row.
\<close>

theorem generateSlug_shape:
  "list_all slug_char (generateSlug uni T) \<and>
   \<not> starts_with_hyphen (generateSlug uni T) \<and>
   \<not> ends_with_hyphen (generateSlug uni T) \<and>
   \<not> double_hyphen (generateSlug uni T)"
proof -
  let ?h = "hyphenate_runs NA (trim (toLowerCase uni T))"
  obtain a b where ab: "?h = a @ strip_hyphens ?h @ b"
    using strip_hyphens_decomp by blast
  have "list_all slug_char (a @ strip_hyphens ?h @ b)"
    using hyphenate_runs_chars [of "trim (toLowerCase uni T)"] ab by simp
  then have 1: "list_all slug_char (strip_hyphens ?h)" by simp
  have "\<not> double_hyphen (a @ strip_hyphens ?h @ b)"
    using hyphenate_runs_no_double [of "trim (toLowerCase uni T)"] ab by simp
  then have 2: "\<not> double_hyphen (strip_hyphens ?h)"
    using double_hyphen_append1 double_hyphen_append2 by blast
  show ?thesis unfolding generateSlug_runs using 1 2 strip_hyphens_ends by simp
qed

theorem generateSlug_shape_witness:
  "generateSlug id (js ''--Rust & Go: 2025!--'') = js ''rust-go-2025'' \<and>
   list_all slug_char (js ''rust-go-2025'') \<and>
   \<not> starts_with_hyphen (js ''rust-go-2025'') \<and>
   \<not> ends_with_hyphen (js ''rust-go-2025'') \<and>
   \<not> double_hyphen (js ''rust-go-2025'')"
proof -
  have "generateSlug id (js ''--Rust & Go: 2025!--'') = js ''rust-go-2025''"
    by code_simp
  then show ?thesis using generateSlug_shape [of id "js ''--Rust & Go: 2025!--''"] by simp
qed

section \<open>The Booking model: the email pattern\<close>

lemma single_email_class:
  "single (Class True [Space, Chr 0x40]) (\<lambda>c. \<not> isWhiteSpace c \<and> c \<noteq> 0x40)"
proof -
  have "in_class True [Space, Chr 0x40] = (\<lambda>c. \<not> isWhiteSpace c \<and> c \<noteq> 0x40)"
    by (auto simp: in_class_def fun_eq_iff)
  then show ?thesis using single_Class [of True "[Space, Chr 0x40]"] by simp
qed

text \<open>
  Claim C3, as the code has it: the validator accepts \<open>v\<close> exactly when \<open>v\<close> is a part,
  \<^verbatim>\<open>@\<close>, a part, a dot and a part, where every part, the last one too, is one or more
  code units that are neither white space nor \<^verbatim>\<open>@\<close>. The test is made on \<open>v\<close> as it
  is passed.
\<close>

theorem validator_accepts_iff:
  "validator v \<longleftrightarrow> (\<exists>u d t. v = email_of u d t \<and> part u \<and> part d \<and> part t)"
proof -
  let ?P = "\<lambda>c. \<not> isWhiteSpace c \<and> c \<noteq> (0x40 :: jschar)"
  note sp = ex_Seq_Plus [OF single_email_class]
  have "validator v \<longleftrightarrow>
     (\<exists>u r1. v = u @ r1 \<and> u \<noteq> [] \<and> list_all ?P u \<and>
        (\<exists>r2. r1 = 0x40 # r2 \<and>
          (\<exists>d r3. r2 = d @ r3 \<and> d \<noteq> [] \<and> list_all ?P d \<and>
            (\<exists>r4. r3 = 0x2E # r4 \<and>
              (\<exists>t r5. r4 = t @ r5 \<and> t \<noteq> [] \<and> list_all ?P t \<and> r5 = [])))))"
    unfolding validator_def EMAIL_REGEX_def test_anchored sp ex_Seq_Lit ex_Eol ..
  also have "\<dots> \<longleftrightarrow> (\<exists>u d t. v = email_of u d t \<and> part u \<and> part d \<and> part t)"
    (is "?L \<longleftrightarrow> ?R")
  proof
    assume ?L
    then show ?R unfolding email_of_def part_def by auto
  next
    assume ?R
    then obtain u d t where *: "v = u @ 0x40 # d @ 0x2E # t" "u \<noteq> []" "list_all ?P u"
      "d \<noteq> []" "list_all ?P d" "t \<noteq> []" "list_all ?P t"
      unfolding email_of_def part_def by auto
    have "\<exists>t' r5. t = t' @ r5 \<and> t' \<noteq> [] \<and> list_all ?P t' \<and> r5 = []"
      using * by simp
    then have "\<exists>d' r3. d @ 0x2E # t = d' @ r3 \<and> d' \<noteq> [] \<and> list_all ?P d' \<and>
            (\<exists>r4. r3 = 0x2E # r4 \<and>
              (\<exists>t' r5. r4 = t' @ r5 \<and> t' \<noteq> [] \<and> list_all ?P t' \<and> r5 = []))"
      using * by blast
    then show ?L using * by blast
  qed
  finally show ?thesis .
qed

theorem validator_accepts_iff_witness:
  "validator (js ''a@b.co'') \<and> \<not> validator (js ''not-an-email'')"
proof -
  have 1: "js ''a@b.co'' = email_of (js ''a'') (js ''b'') (js ''co'')"
    "part (js ''a'')" "part (js ''b'')" "part (js ''co'')"
    by (simp_all add: js_def email_of_def part_def isWhiteSpace_def)
  have 2: "\<not> validator (js ''not-an-email'')"
    by (simp add: js_def validator_def test_def exec_def exec_from.simps EMAIL_REGEX_def
        Plus_def m_Star in_class_def isWhiteSpace_def ahead_def)
  show ?thesis using validator_accepts_iff [of "js ''a@b.co''"] 1 2 by blast
qed

text \<open>
  Claim C3 as stated lets the last part be any non-space code units. The address
  \<^verbatim>\<open>a@b.c@d\<close> has that shape, with the last part \<^verbatim>\<open>c@d\<close>, and is rejected.
\<close>

theorem last_part_with_at_counterexample:
  "part (js ''a'') \<and> part (js ''b'') \<and> non_space_part (js ''c@d'') \<and>
   \<not> validator (email_of (js ''a'') (js ''b'') (js ''c@d''))"
  by (simp add: js_def validator_def test_def exec_def exec_from.simps EMAIL_REGEX_def
        Plus_def m_Star in_class_def isWhiteSpace_def ahead_def email_of_def part_def
        non_space_part_def)

section \<open>The Event model: dates and the pre-save hook\<close>

text \<open>
  Claim C1, as the code has it. \<open>normalizeDate\<close> throws the error exactly when the date
  that \<^verbatim>\<open>new Date\<close> builds from the input is invalid. Otherwise the input denotes an
  instant \<open>t\<close>, and the result is the text of the calendar day of \<open>t\<close> in UTC: year,
  month and day of the month, without time of day or zone, and these three name the day
  number \<open>Day t\<close>. A zone offset in the input moves the instant, so the day returned is
  the UTC day, not always the day written in the input.
\<close>

theorem normalizeDate_utc_calendar_day:
  "(Date_parse impl s = None \<longrightarrow>
      normalizeDate impl s = Inl (Error ''Invalid event date. Please provide a valid date.'')) \<and>
   (Date_parse impl s = Some t \<longrightarrow>
      normalizeDate impl s
        = Inr (date_text (YearFromTime t) (MonthFromTime t + 1) (DateFromTime t)) \<and>
      1 \<le> MonthFromTime t + 1 \<and> MonthFromTime t + 1 \<le> 12 \<and>
      1 \<le> DateFromTime t \<and>
      DateFromTime t \<le> DaysInMonth (YearFromTime t) (MonthFromTime t) \<and>
      MakeDay (YearFromTime t) (MonthFromTime t) (DateFromTime t) = Day t)"
  using civil_of_time [of t] by (simp add: normalizeDate_def split_toISOString)

theorem normalizeDate_utc_calendar_day_witness:
  "Date_parse strict (js ''tomorrow'') = None \<and>
   normalizeDate strict (js ''tomorrow'')
     = Inl (Error ''Invalid event date. Please provide a valid date.'') \<and>
   Date_parse strict (js ''2025-11-16T23:30:00-05:00'') = Some 1763353800000 \<and>
   normalizeDate strict (js ''2025-11-16T23:30:00-05:00'') = Inr (date_text 2025 11 17) \<and>
   MakeDay 2025 10 17 = Day 1763353800000"
proof -
  have 1: "Date_parse strict (js ''tomorrow'') = None" by code_simp
  have 2: "Date_parse strict (js ''2025-11-16T23:30:00-05:00'') = Some 1763353800000"
    by code_simp
  have 3: "YearFromTime 1763353800000 = 2025" "MonthFromTime 1763353800000 = 10"
    "DateFromTime 1763353800000 = 17" by code_simp+
  show ?thesis
    using normalizeDate_utc_calendar_day [of strict "js ''tomorrow''" 0]
      normalizeDate_utc_calendar_day
        [of strict "js ''2025-11-16T23:30:00-05:00''" 1763353800000]
    unfolding 3 using 1 2 by simp
qed

text \<open>
  Claim C1 as stated fails: the input below writes the day 2025-11-16, at 23:30 in a zone
  five hours behind UTC, and the day returned is 2025-11-17.
\<close>

theorem normalizeDate_zone_offset_counterexample:
  "take 10 (js ''2025-11-16T23:30:00-05:00'') = js ''2025-11-16'' \<and>
   normalizeDate strict (js ''2025-11-16T23:30:00-05:00'') = Inr (js ''2025-11-17'')"
  by code_simp

text \<open>
  Claim C7, as the code has it. A canonical date, \<^verbatim>\<open>YYYY-MM-DD\<close> naming a day of the
  calendar, is accepted and returned unchanged, on every runtime; and whatever
  \<open>normalizeDate\<close> returns, for any accepted input, is returned unchanged when it is
  normalized again.
\<close>

theorem normalizeDate_idempotent_on_canonical:
  "(canonical_date s \<longrightarrow> normalizeDate impl s = Inr s) \<and>
   (normalizeDate impl x = Inr r \<longrightarrow> normalizeDate impl r = Inr r)"
  using normalizeDate_canonical [of s impl] normalizeDate_idempotent [of impl x r] by blast

theorem normalizeDate_idempotent_on_canonical_witness:
  "canonical_date (js ''2024-02-29'') \<and>
   normalizeDate strict (js ''2024-02-29'') = Inr (js ''2024-02-29'') \<and>
   normalizeDate strict (js ''2025-11-16T23:30:00-05:00'') = Inr (js ''2025-11-17'') \<and>
   normalizeDate strict (js ''2025-11-17'') = Inr (js ''2025-11-17'')"
proof -
  have 1: "canonical_date (js ''2024-02-29'')" by code_simp
  have 2: "normalizeDate strict (js ''2025-11-16T23:30:00-05:00'') = Inr (js ''2025-11-17'')"
    by code_simp
  show ?thesis
    using normalizeDate_idempotent_on_canonical
      [of "js ''2024-02-29''" strict "js ''2025-11-16T23:30:00-05:00''" "js ''2025-11-17''"]
      1 2
    by simp
qed

text \<open>
  Claim C7 as stated fails: \<^verbatim>\<open>2025-02-30\<close> has the form \<^verbatim>\<open>YYYY-MM-DD\<close> and names no
  day. A runtime that reads it as V8 does accepts it, and \<open>normalizeDate\<close> returns another
  string, the second of March.
\<close>

theorem normalizeDate_day_overflow_counterexample:
  "date_form (js ''2025-02-30'') \<and> \<not> canonical_date (js ''2025-02-30'') \<and>
   normalizeDate lenient (js ''2025-02-30'') = Inr (js ''2025-03-02'') \<and>
   js ''2025-03-02'' \<noteq> js ''2025-02-30''"
  by code_simp

text \<open>
  Claim C10. The title \<^verbatim>\<open>!!!\<close> is not empty after trimming, so the required-field check
  of the pre-save hook passes, and its slug is the empty string: the hook accepts the event
  \<open>punctuated\<close> and stores the empty slug.
\<close>

theorem punctuation_title_has_empty_slug:
  "\<exists>t. trim t \<noteq> [] \<and> generateSlug uni t = [] \<and>
       (\<exists>e e'. title e = t \<and> pre_save impl uni True e = Inr e' \<and> slug e' = [])"
proof -
  let ?t = "js ''!!!''"
  have 1: "trim ?t \<noteq> []" by (simp add: js_def trim_def isWhiteSpace_def)
  have 2: "generateSlug uni ?t = []"
    by (simp add: generateSlug_runs js_def toLowerCase_def lowerASCII_def trim_def
        isWhiteSpace_def in_class_def strip_hyphens_def)
  have c: "canonical_date (date punctuated)" unfolding punctuated_def by code_simp
  have d: "normalizeDate impl (date punctuated) = Inr (date punctuated)"
    by (rule normalizeDate_canonical [OF c])
  have f: "first_empty (requiredStringFields punctuated) = None" by code_simp
  have n: "normalizeTime (time punctuated) = Inr (js ''09:00'')" by code_simp
  have "title punctuated = ?t" by (simp add: punctuated_def)
  moreover have "pre_save impl uni True punctuated =
      Inr (punctuated\<lparr>date := date punctuated, time := js ''09:00'',
             slug := generateSlug uni (title punctuated)\<rparr>)"
    unfolding pre_save_def f d n by simp
  ultimately show ?thesis using 1 2 by (intro exI [of _ ?t]) force
qed

end
